theory Spec2Isabelle
  imports Main "HOL-Library.Word"
begin

section \<open>The memory pool as bytes\<close>

text \<open>
  The allocator of \<^verbatim>\<open>myalloc.c\<close> keeps its whole state in three globals:
  \<^verbatim>\<open>MEMORY_SIZE\<close>, the pool \<^verbatim>\<open>mem\<close> and the pointer \<^verbatim>\<open>end\<close>.
  Every pointer of the program points into the pool, so a pointer is modelled by its
  byte offset from \<^verbatim>\<open>mem\<close> (an \<open>int\<close>, since the code also subtracts), and the
  null pointer by \<open>None\<close>. The pool itself is a function from byte offsets to bytes.

  Block sizes need not be multiples of four (\<^verbatim>\<open>myalloc(5)\<close> makes a block of 13
  bytes), so the code reads and writes \<^verbatim>\<open>int\<close>s at arbitrary byte offsets, as the
  machines it is written for allow. An \<^verbatim>\<open>int\<close> is four bytes, little endian, two's
  complement (\<^verbatim>\<open>best_fit_block\<close> itself takes two of them to be 8 bytes), and
  \<^verbatim>\<open>size_t\<close> has 64 bits.
\<close>

type_synonym memory = "int \<Rightarrow> 8 word"

definition sizeof_int :: int where
  "sizeof_int = 4"

text \<open>Conversion of an integer value to \<^verbatim>\<open>int\<close> (32 bits, two's complement).\<close>

definition to_int :: "int \<Rightarrow> int" where
  "to_int v =
     (let u = v mod 4294967296 in if u < 2147483648 then u else u - 4294967296)"

text \<open>Conversion to \<^verbatim>\<open>size_t\<close> (64 bits, unsigned), the type of \<^verbatim>\<open>sizeof(int)\<close>.\<close>

definition to_size_t :: "int \<Rightarrow> int" where
  "to_size_t v = v mod 18446744073709551616"

text \<open>\<^verbatim>\<open>*(int *) p\<close> as a value.\<close>

definition load_int :: "memory \<Rightarrow> int \<Rightarrow> int" where
  "load_int m p =
     to_int (uint (m p) + 256 * uint (m (p + 1)) + 65536 * uint (m (p + 2))
             + 16777216 * uint (m (p + 3)))"

text \<open>\<^verbatim>\<open>*(int *) p = v\<close>: the value is converted to \<^verbatim>\<open>int\<close> and its four bytes stored.\<close>

definition store_int :: "memory \<Rightarrow> int \<Rightarrow> int \<Rightarrow> memory" where
  "store_int m p v =
     m(p := word_of_int v,
       p + 1 := word_of_int (v div 256),
       p + 2 := word_of_int (v div 65536),
       p + 3 := word_of_int (v div 16777216))"

section \<open>The allocator state\<close>

datatype diagnostic =
    Could_not_get int      \<comment> \<open>\<^verbatim>\<open>init_myalloc: could not get %d bytes from the system\<close>\<close>
  | Cannot_service int     \<comment> \<open>\<^verbatim>\<open>myalloc: cannot service request of size %d\<close>\<close>

record pool =
  MEMORY_SIZE :: int
  mem :: memory
  end_ptr :: int
  stderr :: "diagnostic list"

datatype abort = Abort "diagnostic list"

text \<open>
  \<^verbatim>\<open>init_myalloc\<close>. The outcome of \<^verbatim>\<open>malloc(MEMORY_SIZE)\<close> is an argument:
  \<open>None\<close> for a null pointer, \<open>Some m\<close> for a fresh region with contents \<open>m\<close>
  (which the C standard leaves indeterminate).
\<close>

definition init_myalloc :: "int \<Rightarrow> memory option \<Rightarrow> abort + pool" where
  "init_myalloc memory_size malloc_result =
     (case malloc_result of
        None \<Rightarrow> Inl (Abort [Could_not_get memory_size])
      | Some m0 \<Rightarrow>
          (let init = 0;
               m1 = store_int m0 init memory_size;
               init = init + memory_size - sizeof_int;
               m2 = store_int m1 init memory_size;
               init = init + sizeof_int
           in Inr \<lparr>MEMORY_SIZE = memory_size, mem = m2, end_ptr = init, stderr = []\<rparr>))"

section \<open>Block navigation\<close>

definition get_header :: "memory \<Rightarrow> int \<Rightarrow> int" where
  "get_header m footer = (let sz = \<bar>load_int m footer\<bar> in footer - sz + sizeof_int)"

definition get_footer :: "memory \<Rightarrow> int \<Rightarrow> int" where
  "get_footer m header = (let sz = \<bar>load_int m header\<bar> in header + sz - sizeof_int)"

definition get_next_header :: "memory \<Rightarrow> int \<Rightarrow> int \<Rightarrow> int option" where
  "get_next_header m e header =
     (let sz = \<bar>load_int m header\<bar>;
          header = header + sz
      in if header \<ge> e then None else Some header)"

section \<open>Best-fit search\<close>

definition INT_MAX :: int where
  "INT_MAX = 2147483647"

text \<open>
  The \<^verbatim>\<open>while (header != 0)\<close> loop of \<^verbatim>\<open>best_fit_block\<close>, with the two
  variables it updates as arguments. Nothing in the code bounds the number of
  iterations (a header holding 0 makes it spin), so the loop is a partial function.
  The result \<open>None\<close> means that the loop does not return.

  Its test computes \<^verbatim>\<open>size + 8\<close> in \<^verbatim>\<open>int\<close>. For a size above \<^verbatim>\<open>INT_MAX - 8\<close> the
  sum does not fit; the compiled code then goes on with the sum wrapped around in 32
  bits, and so does the model: the sum is \<open>to_int (sz + 8)\<close>.

  All other \<^verbatim>\<open>int\<close> arithmetic of the program works on tags read from the pool. It
  is computed in the integers and converted when it is stored; on a pool that
  satisfies \<open>arena\<close> below no such computation leaves the range of \<^verbatim>\<open>int\<close>.
\<close>

partial_function (option) best_fit_loop ::
  "memory \<Rightarrow> int \<Rightarrow> int \<Rightarrow> int option \<Rightarrow> int option \<Rightarrow> int option option" where
  "best_fit_loop m e sz result header =
     (case header of
        None \<Rightarrow> Some result
      | Some h \<Rightarrow>
          best_fit_loop m e sz
            (if \<bar>load_int m h\<bar> \<ge> to_int (sz + 8) \<and> load_int m h > 0
             then (case result of
                     None \<Rightarrow> Some h
                   | Some r \<Rightarrow> if \<bar>load_int m h\<bar> < \<bar>load_int m r\<bar> then Some h else result)
             else result)
            (get_next_header m e h))"

definition best_fit_block :: "memory \<Rightarrow> int \<Rightarrow> int \<Rightarrow> int option option" where
  "best_fit_block m e sz = best_fit_loop m e sz None (Some 0)"

section \<open>Allocation\<close>

text \<open>
  \<^verbatim>\<open>myalloc\<close>. The result is \<open>None\<close> when the search does not return; otherwise the
  returned pointer (\<open>None\<close> for 0) and the new state. Expressions that involve
  \<^verbatim>\<open>sizeof\<close> are computed in \<^verbatim>\<open>size_t\<close>, as C's conversions have it.
\<close>

definition myalloc :: "pool \<Rightarrow> int \<Rightarrow> (int option \<times> pool) option" where
  "myalloc s sz =
     (case best_fit_block (mem s) (end_ptr s) sz of
        None \<Rightarrow> None
      | Some None \<Rightarrow> Some (None, s\<lparr>stderr := stderr s @ [Cannot_service sz]\<rparr>)
      | Some (Some header) \<Rightarrow>
          (let m = mem s; old_header = header in
           if to_size_t \<bar>load_int m header\<bar> \<ge> to_size_t (to_size_t sz + 4 * sizeof_int)
           then
             (let orig_size = \<bar>load_int m header\<bar>;
                  m = store_int m header
                        (to_size_t (to_size_t (to_size_t sz + 2 * sizeof_int) * to_size_t (- 1)));
                  header = get_footer m header;
                  m = store_int m header
                        (to_size_t (to_size_t (to_size_t sz + 2 * sizeof_int) * to_size_t (- 1)));
                  header = header + sizeof_int;
                  m = store_int m header
                        (to_size_t (to_size_t orig_size - to_size_t (to_size_t sz + 2 * sizeof_int)));
                  header = get_footer m header;
                  m = store_int m header
                        (to_size_t (to_size_t orig_size - to_size_t (to_size_t sz + 2 * sizeof_int)))
              in Some (Some (old_header + sizeof_int), s\<lparr>mem := m\<rparr>))
           else
             (let m = store_int m header (load_int m header * - 1);
                  header = get_footer m header;
                  m = store_int m header (load_int m header * - 1)
              in Some (Some (old_header + sizeof_int), s\<lparr>mem := m\<rparr>))))"

section \<open>Freeing and coalescing\<close>

definition back_coalesce :: "memory \<Rightarrow> int \<Rightarrow> memory \<times> int" where
  "back_coalesce m header =
     (let right = load_int m header;
          header = header - sizeof_int;
          left = load_int m header;
          header = get_header m header;
          m = store_int m header (load_int m header + right);
          header = get_footer m header;
          m = store_int m header (load_int m header + left)
      in (m, get_header m header))"

text \<open>
  \<^verbatim>\<open>fwd_coalesce\<close> dereferences the result of \<^verbatim>\<open>get_next_header\<close> unchecked;
  \<open>None\<close> is the dereference of the null pointer.
\<close>

definition fwd_coalesce :: "memory \<Rightarrow> int \<Rightarrow> int \<Rightarrow> memory option" where
  "fwd_coalesce m e header =
     (let left = load_int m header in
      case get_next_header m e header of
        None \<Rightarrow> None
      | Some header \<Rightarrow>
          (let right = load_int m header;
               header = header - sizeof_int;
               header = get_header m header;
               m = store_int m header (load_int m header + right);
               header = get_footer m header;
               m = store_int m header (load_int m header + left)
           in Some m))"

definition myfree :: "pool \<Rightarrow> int \<Rightarrow> pool option" where
  "myfree s oldptr =
     (let m = mem s;
          newptr = oldptr - sizeof_int;
          m = store_int m newptr (load_int m newptr * - 1);
          newptr = get_footer m newptr;
          m = store_int m newptr (load_int m newptr * - 1);
          newptr = get_header m newptr;
          (m, newptr) =
            (if newptr \<noteq> 0 then
               (if load_int m (newptr - sizeof_int) > 0 then back_coalesce m newptr
                else (m, newptr))
             else (m, newptr))
      in case get_next_header m (end_ptr s) newptr of
           None \<Rightarrow> Some (s\<lparr>mem := m\<rparr>)
         | Some newptr \<Rightarrow>
             (if load_int m newptr > 0 then
                (let newptr = newptr - sizeof_int;
                     newptr = get_header m newptr
                 in map_option (\<lambda>m. s\<lparr>mem := m\<rparr>) (fwd_coalesce m (end_ptr s) newptr))
              else Some (s\<lparr>mem := m\<rparr>)))"

section \<open>Clients\<close>

text \<open>
  A client calls \<^verbatim>\<open>init_myalloc\<close> once and then \<^verbatim>\<open>myalloc\<close> and \<^verbatim>\<open>myfree\<close>.
  The code documents two obligations of the client and checks neither: the size passed
  to \<^verbatim>\<open>myalloc\<close> is positive, and the pointer passed to \<^verbatim>\<open>myfree\<close> is one that
  \<^verbatim>\<open>myalloc\<close> returned and that has not been freed since. The size is an \<^verbatim>\<open>int\<close>,
  so it is at most \<^verbatim>\<open>INT_MAX\<close>. \<open>run_call\<close> runs one call of a client that keeps
  the set of its live pointers; it is \<open>None\<close> when the call is not one that a client can
  make, when the client breaks an obligation, or when the call does not return.
\<close>

datatype call = Allocate int | Free int

fun run_call :: "pool \<times> int set \<Rightarrow> call \<Rightarrow> (pool \<times> int set) option" where
  "run_call (s, live) (Allocate sz) =
     (if sz > 0 \<and> sz \<le> INT_MAX then
        (case myalloc s sz of
           None \<Rightarrow> None
         | Some (None, s') \<Rightarrow> Some (s', live)
         | Some (Some p, s') \<Rightarrow> Some (s', insert p live))
      else None)"
| "run_call (s, live) (Free p) =
     (if p \<in> live then map_option (\<lambda>s'. (s', live - {p})) (myfree s p) else None)"

fun run_calls :: "pool \<times> int set \<Rightarrow> call list \<Rightarrow> (pool \<times> int set) option" where
  "run_calls c [] = Some c"
| "run_calls c (x # xs) =
     (case run_call c x of None \<Rightarrow> None | Some c' \<Rightarrow> run_calls c' xs)"

definition session :: "int \<Rightarrow> memory \<Rightarrow> call list \<Rightarrow> (pool \<times> int set) option" where
  "session capacity m0 calls =
     (case init_myalloc capacity (Some m0) of
        Inl _ \<Rightarrow> None
      | Inr s \<Rightarrow> run_calls (s, {}) calls)"

section \<open>Block layout\<close>

text \<open>
  \<open>tiles m a e ts\<close>: from offset \<open>a\<close> up to offset \<open>e\<close> the pool \<open>m\<close> holds
  exactly the blocks with tags \<open>ts\<close>, in address order. Each block carries its tag
  (signed size) in its first and in its last four bytes, and header and footer do not
  overlap.
\<close>

fun tiles :: "memory \<Rightarrow> int \<Rightarrow> int \<Rightarrow> int list \<Rightarrow> bool" where
  "tiles m a e [] = (a = e)"
| "tiles m a e (t # ts) =
     (8 \<le> \<bar>t\<bar> \<and> load_int m a = t \<and> load_int m (a + \<bar>t\<bar> - 4) = t \<and> tiles m (a + \<bar>t\<bar>) e ts)"

fun no_adjacent_free :: "int list \<Rightarrow> bool" where
  "no_adjacent_free (t # u # ts) = (\<not> (t > 0 \<and> u > 0) \<and> no_adjacent_free (u # ts))"
| "no_adjacent_free _ = True"

text \<open>The payload pointers of the allocated blocks of a layout that starts at \<open>a\<close>.\<close>

fun allocated_ptrs :: "int \<Rightarrow> int list \<Rightarrow> int set" where
  "allocated_ptrs a [] = {}"
| "allocated_ptrs a (t # ts) =
     (if t < 0 then {a + 4} else {}) \<union> allocated_ptrs (a + \<bar>t\<bar>) ts"

text \<open>The total size of a layout.\<close>

definition total_size :: "int list \<Rightarrow> int" where
  "total_size ts = sum_list (map abs ts)"

text \<open>
  The test that \<^verbatim>\<open>best_fit_block\<close> applies to the tag \<open>t\<close> of a block,
  \<^verbatim>\<open>(abs(*header) >= size + 8) && (*header > 0)\<close>, in two readings: \<open>candidate\<close>
  with the sum as the code computes it, \<open>eligible\<close> with the sum in the integers.
\<close>

definition candidate :: "int \<Rightarrow> int \<Rightarrow> bool" where
  "candidate sz t \<longleftrightarrow> \<bar>t\<bar> \<ge> to_int (sz + 8) \<and> t > 0"

definition eligible :: "int \<Rightarrow> int \<Rightarrow> bool" where
  "eligible sz t \<longleftrightarrow> \<bar>t\<bar> \<ge> sz + 8 \<and> t > 0"

text \<open>
  \<open>arena s ts\<close>: the state \<open>s\<close> is that of an initialised allocator whose pool
  has the layout \<open>ts\<close>. \<^verbatim>\<open>MEMORY_SIZE\<close> is an \<^verbatim>\<open>int\<close>, and a pool shorter than
  two tags cannot hold a block.
\<close>

definition arena :: "pool \<Rightarrow> int list \<Rightarrow> bool" where
  "arena s ts \<longleftrightarrow>
     8 \<le> MEMORY_SIZE s \<and> MEMORY_SIZE s < 2147483648 \<and> end_ptr s = MEMORY_SIZE s \<and>
     tiles (mem s) 0 (end_ptr s) ts"


text \<open>
  What \<^verbatim>\<open>myfree\<close> does to a layout \<open>xs @ t # ys\<close> when it frees the block with tag
  \<open>t\<close>: the block absorbs its left neighbour when that one is free, and its right
  neighbour when that one is free. \<open>free_footprint\<close> is the set of the bytes that hold
  the header and the footer of the freed block, the header of a free left neighbour and
  the footer of a free right neighbour.
\<close>

definition free_left :: "int list \<Rightarrow> bool" where
  "free_left xs \<longleftrightarrow> xs \<noteq> [] \<and> last xs > 0"

definition free_right :: "int list \<Rightarrow> bool" where
  "free_right ys \<longleftrightarrow> ys \<noteq> [] \<and> hd ys > 0"

definition coalesce :: "int list \<Rightarrow> int \<Rightarrow> int list \<Rightarrow> int list" where
  "coalesce xs t ys =
     (if free_left xs then butlast xs else xs) @
     [(if free_left xs then last xs else 0) + \<bar>t\<bar> + (if free_right ys then hd ys else 0)] @
     (if free_right ys then tl ys else ys)"

definition free_footprint :: "int list \<Rightarrow> int \<Rightarrow> int list \<Rightarrow> int set" where
  "free_footprint xs t ys =
     (let h = total_size xs; n = \<bar>t\<bar> in
      {h ..< h + 4} \<union> {h + n - 4 ..< h + n} \<union>
      (if free_left xs then {h - last xs ..< h - last xs + 4} else {}) \<union>
      (if free_right ys then {h + n + hd ys - 4 ..< h + n + hd ys} else {}))"

text \<open>
  The bytes that hold tags after \<^verbatim>\<open>myalloc\<close> has served \<open>sz\<close> bytes from the free
  block at \<open>h\<close> with tag \<open>t\<close>: the header and the footer of the block and, when the
  block is split, the footer of the allocated part and the header of the remainder.
\<close>

definition alloc_footprint :: "int \<Rightarrow> int \<Rightarrow> int \<Rightarrow> int set" where
  "alloc_footprint h sz t =
     {h ..< h + 4} \<union> {h + t - 4 ..< h + t} \<union>
     (if sz + 16 \<le> t then {h + sz + 4 ..< h + sz + 8} \<union> {h + sz + 8 ..< h + sz + 12} else {})"

text \<open>
  The traversal that \<^verbatim>\<open>best_fit_block\<close> makes,
  \<^verbatim>\<open>header = mem; while (header != 0) header = get_next_header(header);\<close>,
  with the headers it visits collected in order. \<open>starts a ts\<close> lists where the blocks
  of a layout begin.
\<close>

partial_function (option) visit :: "pool \<Rightarrow> int list \<Rightarrow> int option \<Rightarrow> int list option" where
  "visit s seen header =
     (case header of
        None \<Rightarrow> Some seen
      | Some h \<Rightarrow> visit s (seen @ [h]) (get_next_header (mem s) (end_ptr s) h))"

definition block_headers :: "pool \<Rightarrow> int list option" where
  "block_headers s = visit s [] (Some 0)"

fun starts :: "int \<Rightarrow> int list \<Rightarrow> int list" where
  "starts a [] = []"
| "starts a (t # ts) = a # starts (a + \<bar>t\<bar>) ts"

text \<open>Memory as \<^verbatim>\<open>calloc\<close> would hand it out, for the examples.\<close>

definition zero_memory :: memory where
  "zero_memory = (\<lambda>_. 0)"

text \<open>The state after \<^verbatim>\<open>init_myalloc\<close> when \<^verbatim>\<open>malloc\<close> hands out zeroed memory.\<close>

definition fresh_pool :: "int \<Rightarrow> pool" where
  "fresh_pool c =
     \<lparr>MEMORY_SIZE = c, mem = store_int (store_int zero_memory 0 c) (c - 4) c, end_ptr = c,
      stderr = []\<rparr>"

text \<open>
  For the examples: the state in which a session on zeroed memory leaves the allocator.
\<close>

definition pool_after :: "int \<Rightarrow> call list \<Rightarrow> pool" where
  "pool_after c calls =
     (case session c zero_memory calls of Some (s, live) \<Rightarrow> s | None \<Rightarrow> fresh_pool c)"

text \<open>
  The bytes of a layout that starts at \<open>a\<close>: those of the headers and footers of all
  its blocks, and those between header and footer of its allocated blocks.
\<close>

fun tag_bytes :: "int \<Rightarrow> int list \<Rightarrow> int set" where
  "tag_bytes a [] = {}"
| "tag_bytes a (t # ts) = {a ..< a + 4} \<union> {a + \<bar>t\<bar> - 4 ..< a + \<bar>t\<bar>} \<union> tag_bytes (a + \<bar>t\<bar>) ts"

fun payload_bytes :: "int \<Rightarrow> int list \<Rightarrow> int set" where
  "payload_bytes a [] = {}"
| "payload_bytes a (t # ts) =
     (if t < 0 then {a + 4 ..< a + \<bar>t\<bar> - 4} else {}) \<union> payload_bytes (a + \<bar>t\<bar>) ts"

section \<open>Loads and stores\<close>

lemma to_int_id: "- 2147483648 \<le> v \<Longrightarrow> v < 2147483648 \<Longrightarrow> to_int v = v"
proof (cases "0 \<le> v")
  case True
  assume "v < 2147483648"
  with True have "v mod 4294967296 = v" by simp
  with \<open>v < 2147483648\<close> show ?thesis by (simp add: to_int_def)
next
  case False
  assume "- 2147483648 \<le> v"
  have "v mod 4294967296 = (v + 4294967296) mod 4294967296" by simp
  also have "\<dots> = v + 4294967296" using False \<open>- 2147483648 \<le> v\<close> by (intro mod_pos_pos_trivial) auto
  finally show ?thesis using False \<open>- 2147483648 \<le> v\<close> by (simp add: to_int_def)
qed

lemma to_int_range: "- 2147483648 \<le> to_int v \<and> to_int v < 2147483648"
  using pos_mod_bound[of 4294967296 v] pos_mod_sign[of 4294967296 v]
  by (auto simp: to_int_def Let_def)

lemma to_int_shift: "\<exists>k. to_int v = v + k * 4294967296"
proof (cases "v mod 4294967296 < 2147483648")
  case True
  have "v mod 4294967296 = v + (- (v div 4294967296)) * 4294967296"
    by (simp add: minus_div_mult_eq_mod [symmetric])
  with True show ?thesis unfolding to_int_def Let_def by (metis (full_types))
next
  case False
  have "v mod 4294967296 - 4294967296 = v + (- (v div 4294967296) - 1) * 4294967296"
    by (simp add: minus_div_mult_eq_mod [symmetric] algebra_simps)
  with False show ?thesis unfolding to_int_def Let_def by (metis (full_types))
qed

lemma load_int_range: "- 2147483648 \<le> load_int m p \<and> load_int m p < 2147483648"
  by (simp add: load_int_def to_int_range)

lemma bytes_sum:
  "v mod 256 + 256 * (v div 256 mod 256) + 65536 * (v div 65536 mod 256)
     + 16777216 * (v div 16777216 mod 256) = v mod 4294967296" for v :: int
proof -
  have a: "v mod 4294967296 = v mod 256 + 256 * (v div 256 mod 16777216)"
    using mod_mult2_eq'[of v 256 16777216] by simp
  have b: "v div 256 mod 16777216 = v div 256 mod 256 + 256 * (v div 256 div 256 mod 65536)"
    using mod_mult2_eq'[of "v div 256" 256 65536] by simp
  have c: "v div 256 div 256 mod 65536 =
      v div 256 div 256 mod 256 + 256 * (v div 256 div 256 div 256 mod 256)"
    using mod_mult2_eq'[of "v div 256 div 256" 256 256] by simp
  have d: "v div 256 div 256 = v div 65536" "v div 256 div 256 div 256 = v div 16777216"
    by (simp_all add: div_mult2_eq[symmetric])
  show ?thesis unfolding a b c d[symmetric] by simp
qed

lemma uint_byte: "uint (word_of_int x :: 8 word) = x mod 256"
  by (simp add: uint_word_of_int)

lemma load_store_same: "load_int (store_int m p v) p = to_int v"
proof -
  have "load_int (store_int m p v) p =
      to_int (v mod 256 + 256 * (v div 256 mod 256) + 65536 * (v div 65536 mod 256)
              + 16777216 * (v div 16777216 mod 256))"
    by (simp add: load_int_def store_int_def uint_byte)
  also have "\<dots> = to_int (v mod 4294967296)" by (simp only: bytes_sum)
  also have "\<dots> = to_int v" by (simp add: to_int_def)
  finally show ?thesis .
qed

lemma load_store_other:
  "q + 4 \<le> p \<or> p + 4 \<le> q \<Longrightarrow> load_int (store_int m p v) q = load_int m q"
  by (auto simp add: load_int_def store_int_def)

lemma store_frame: "x < p \<or> p + 4 \<le> x \<Longrightarrow> store_int m p v x = m x"
  by (auto simp add: store_int_def)

lemma load_cong:
  "(\<And>x. p \<le> x \<Longrightarrow> x < p + 4 \<Longrightarrow> m' x = m x) \<Longrightarrow> load_int m' p = load_int m p"
  by (simp add: load_int_def)

lemma word8_shift: "(word_of_int (a + b * 256) :: 8 word) = word_of_int a"
  unfolding word_of_int_eq_iff take_bit_eq_mod by simp

lemma byte_shift:
  "(word_of_int (v + k * 4294967296) :: 8 word) = word_of_int v"
  "(word_of_int ((v + k * 4294967296) div 256) :: 8 word) = word_of_int (v div 256)"
  "(word_of_int ((v + k * 4294967296) div 65536) :: 8 word) = word_of_int (v div 65536)"
  "(word_of_int ((v + k * 4294967296) div 16777216) :: 8 word) = word_of_int (v div 16777216)"
proof -
  have "(v + k * 4294967296) div 256 = v div 256 + (k * 65536) * 256"
    using div_mult_self1[of 256 v "k * 16777216"] by simp
  moreover have "(v + k * 4294967296) div 65536 = v div 65536 + (k * 256) * 256"
    using div_mult_self1[of 65536 v "k * 65536"] by simp
  moreover have "(v + k * 4294967296) div 16777216 = v div 16777216 + k * 256"
    using div_mult_self1[of 16777216 v "k * 256"] by simp
  moreover have "v + k * 4294967296 = v + (k * 16777216) * 256" by simp
  ultimately show
    "(word_of_int (v + k * 4294967296) :: 8 word) = word_of_int v"
    "(word_of_int ((v + k * 4294967296) div 256) :: 8 word) = word_of_int (v div 256)"
    "(word_of_int ((v + k * 4294967296) div 65536) :: 8 word) = word_of_int (v div 65536)"
    "(word_of_int ((v + k * 4294967296) div 16777216) :: 8 word) = word_of_int (v div 16777216)"
    by (simp_all only: word8_shift)
qed

lemma store_int_shift: "store_int m p (v + k * 4294967296) = store_int m p v"
  by (simp only: store_int_def byte_shift)

lemma store_int_to_int: "store_int m p v = store_int m p (to_int v)"
  using to_int_shift[of v] store_int_shift[of m p v] by auto

section \<open>Layouts\<close>

lemma total_size_simps [simp]:
  "total_size [] = 0"
  "total_size (t # ts) = \<bar>t\<bar> + total_size ts"
  "total_size (xs @ ys) = total_size xs + total_size ys"
  by (simp_all add: total_size_def)

lemma total_size_nonneg: "0 \<le> total_size ts"
  by (induction ts) auto

lemma tiles_end: "tiles m a e ts \<Longrightarrow> a + total_size ts = e"
  by (induction ts arbitrary: a) (auto simp: add.assoc [symmetric])

lemma tiles_le: "tiles m a e ts \<Longrightarrow> a \<le> e"
  using tiles_end total_size_nonneg by fastforce

lemma tiles_nonempty_less: "tiles m a e ts \<Longrightarrow> ts \<noteq> [] \<Longrightarrow> a + 8 \<le> e"
  by (cases ts) (auto dest: tiles_le)

lemma tiles_append:
  "tiles m a e (xs @ ys) \<longleftrightarrow>
     tiles m a (a + total_size xs) xs \<and> tiles m (a + total_size xs) e ys"
  by (induction xs arbitrary: a) (auto simp: add.assoc)

lemma tiles_frame:
  "tiles m a e ts \<Longrightarrow> (\<And>x. a \<le> x \<Longrightarrow> x < e \<Longrightarrow> m' x = m x) \<Longrightarrow> tiles m' a e ts"
proof (induction ts arbitrary: a)
  case Nil
  then show ?case by simp
next
  case (Cons t ts)
  from Cons.prems(1) have t: "8 \<le> \<bar>t\<bar>" "load_int m a = t" "load_int m (a + \<bar>t\<bar> - 4) = t"
    and rest: "tiles m (a + \<bar>t\<bar>) e ts" by auto
  from rest have le: "a + \<bar>t\<bar> \<le> e" by (rule tiles_le)
  have "load_int m' a = load_int m a"
    using t(1) le by (intro load_cong Cons.prems(2)) auto
  moreover have "load_int m' (a + \<bar>t\<bar> - 4) = load_int m (a + \<bar>t\<bar> - 4)"
    using t(1) le by (intro load_cong Cons.prems(2)) auto
  moreover have "tiles m' (a + \<bar>t\<bar>) e ts"
    using rest t(1) by (intro Cons.IH Cons.prems(2)) auto
  ultimately show ?case using t by simp
qed

lemma tiles_unique: "tiles m a e ts \<Longrightarrow> tiles m a e us \<Longrightarrow> ts = us"
proof (induction ts arbitrary: a us)
  case Nil
  then show ?case by (cases us) (auto dest: tiles_le)
next
  case (Cons t ts)
  then show ?case by (cases us) (auto dest: tiles_le)
qed

lemma tiles_tag_range: "tiles m a e ts \<Longrightarrow> t \<in> set ts \<Longrightarrow> - 2147483648 \<le> t \<and> t < 2147483648"
  by (induction ts arbitrary: a) (use load_int_range in auto)

section \<open>The search loop on a layout\<close>

lemma get_next_header_tiles:
  assumes "tiles m a e (t # ts)"
  shows "get_next_header m e a = (if ts = [] then None else Some (a + \<bar>t\<bar>))"
proof -
  from assms have l: "load_int m a = t" and r: "tiles m (a + \<bar>t\<bar>) e ts" by auto
  show ?thesis
  proof (cases "ts = []")
    case True
    with r have "a + \<bar>t\<bar> = e" by simp
    then show ?thesis using True l by (simp add: get_next_header_def)
  next
    case False
    from tiles_nonempty_less[OF r False] have "a + \<bar>t\<bar> + 8 \<le> e" .
    then show ?thesis using False l by (simp add: get_next_header_def)
  qed
qed

lemma best_fit_loop_tiles:
  assumes "tiles m a e ts" "ts \<noteq> []"
  shows "\<exists>res. best_fit_loop m e sz acc (Some a) = Some res \<and>
           ((res = acc \<and> (\<forall>u \<in> set ts. candidate sz u \<longrightarrow> (\<exists>r. acc = Some r \<and> \<bar>load_int m r\<bar> \<le> \<bar>u\<bar>)))
            \<or> (\<exists>xs t ys. ts = xs @ t # ys \<and> res = Some (a + total_size xs) \<and> candidate sz t
                  \<and> (\<forall>u \<in> set xs. candidate sz u \<longrightarrow> \<bar>t\<bar> < \<bar>u\<bar>)
                  \<and> (\<forall>u \<in> set ys. candidate sz u \<longrightarrow> \<bar>t\<bar> \<le> \<bar>u\<bar>)
                  \<and> (\<forall>r. acc = Some r \<longrightarrow> \<bar>t\<bar> < \<bar>load_int m r\<bar>)))"
  using assms
proof (induction ts arbitrary: a acc)
  case Nil
  then show ?case by simp
next
  case (Cons t ts)
  let ?acc' = "if \<bar>load_int m a\<bar> \<ge> to_int (sz + 8) \<and> load_int m a > 0
             then (case acc of
                     None \<Rightarrow> Some a
                   | Some r \<Rightarrow> if \<bar>load_int m a\<bar> < \<bar>load_int m r\<bar> then Some a else acc)
             else acc"
  from Cons.prems have l: "load_int m a = t" and r: "tiles m (a + \<bar>t\<bar>) e ts" by auto
  have step: "best_fit_loop m e sz acc (Some a) = best_fit_loop m e sz ?acc' (get_next_header m e a)"
    by (subst best_fit_loop.simps) simp
  have nxt: "get_next_header m e a = (if ts = [] then None else Some (a + \<bar>t\<bar>))"
    using Cons.prems(1) by (rule get_next_header_tiles)
  have "(?acc' = acc \<and> (candidate sz t \<longrightarrow> (\<exists>r. acc = Some r \<and> \<bar>load_int m r\<bar> \<le> \<bar>t\<bar>)))
      \<or> (?acc' = Some a \<and> candidate sz t \<and> (\<forall>r. acc = Some r \<longrightarrow> \<bar>t\<bar> < \<bar>load_int m r\<bar>))"
  proof (cases "candidate sz t")
    case False
    then have "\<not> (\<bar>load_int m a\<bar> \<ge> to_int (sz + 8) \<and> load_int m a > 0)" using l by (simp add: candidate_def)
    then have "?acc' = acc" by (simp only: if_False)
    then show ?thesis using False by blast
  next
    case True
    then have c: "\<bar>load_int m a\<bar> \<ge> to_int (sz + 8) \<and> load_int m a > 0" using l by (auto simp: candidate_def)
    show ?thesis
    proof (cases acc)
      case None
      then show ?thesis using True c by auto
    next
      case (Some r)
      then show ?thesis using True c l by (cases "\<bar>load_int m a\<bar> < \<bar>load_int m r\<bar>") auto
    qed
  qed
  then consider (keep) "?acc' = acc" "candidate sz t \<longrightarrow> (\<exists>r. acc = Some r \<and> \<bar>load_int m r\<bar> \<le> \<bar>t\<bar>)"
    | (take) "?acc' = Some a" "candidate sz t" "\<forall>r. acc = Some r \<longrightarrow> \<bar>t\<bar> < \<bar>load_int m r\<bar>"
    by blast
  then show ?case
  proof cases
    case keep
    show ?thesis
    proof (cases "ts = []")
      case True
      have "best_fit_loop m e sz acc (Some a) = Some acc"
        using step nxt True keep(1) by (simp add: best_fit_loop.simps)
      then show ?thesis using keep(2) True by auto
    next
      case False
      from Cons.IH[OF r False, of acc] obtain res where
        res: "best_fit_loop m e sz acc (Some (a + \<bar>t\<bar>)) = Some res"
        and alt: "(res = acc \<and> (\<forall>u \<in> set ts. candidate sz u \<longrightarrow> (\<exists>r. acc = Some r \<and> \<bar>load_int m r\<bar> \<le> \<bar>u\<bar>)))
            \<or> (\<exists>xs t' ys. ts = xs @ t' # ys \<and> res = Some (a + \<bar>t\<bar> + total_size xs) \<and> candidate sz t'
                  \<and> (\<forall>u \<in> set xs. candidate sz u \<longrightarrow> \<bar>t'\<bar> < \<bar>u\<bar>)
                  \<and> (\<forall>u \<in> set ys. candidate sz u \<longrightarrow> \<bar>t'\<bar> \<le> \<bar>u\<bar>)
                  \<and> (\<forall>r. acc = Some r \<longrightarrow> \<bar>t'\<bar> < \<bar>load_int m r\<bar>))"
        by blast
      have eq: "best_fit_loop m e sz acc (Some a) = Some res"
        using step nxt False keep(1) res by simp
      from alt show ?thesis
      proof
        assume "res = acc \<and> (\<forall>u \<in> set ts. candidate sz u \<longrightarrow> (\<exists>r. acc = Some r \<and> \<bar>load_int m r\<bar> \<le> \<bar>u\<bar>))"
        then show ?thesis using eq keep(2) by auto
      next
        assume "\<exists>xs t' ys. ts = xs @ t' # ys \<and> res = Some (a + \<bar>t\<bar> + total_size xs) \<and> candidate sz t'
                  \<and> (\<forall>u \<in> set xs. candidate sz u \<longrightarrow> \<bar>t'\<bar> < \<bar>u\<bar>)
                  \<and> (\<forall>u \<in> set ys. candidate sz u \<longrightarrow> \<bar>t'\<bar> \<le> \<bar>u\<bar>)
                  \<and> (\<forall>r. acc = Some r \<longrightarrow> \<bar>t'\<bar> < \<bar>load_int m r\<bar>)"
        then obtain xs t' ys where s: "ts = xs @ t' # ys" "res = Some (a + \<bar>t\<bar> + total_size xs)"
          "candidate sz t'" "\<forall>u \<in> set xs. candidate sz u \<longrightarrow> \<bar>t'\<bar> < \<bar>u\<bar>"
          "\<forall>u \<in> set ys. candidate sz u \<longrightarrow> \<bar>t'\<bar> \<le> \<bar>u\<bar>"
          "\<forall>r. acc = Some r \<longrightarrow> \<bar>t'\<bar> < \<bar>load_int m r\<bar>" by blast
        have "t # ts = (t # xs) @ t' # ys" using s(1) by simp
        moreover have "res = Some (a + total_size (t # xs))" using s(2) by simp
        moreover have "\<forall>u \<in> set (t # xs). candidate sz u \<longrightarrow> \<bar>t'\<bar> < \<bar>u\<bar>"
          using s(4) s(6) keep(2) by auto
        ultimately show ?thesis using eq s(3,5,6) by blast
      qed
    qed
  next
    case take
    show ?thesis
    proof (cases "ts = []")
      case True
      have "best_fit_loop m e sz acc (Some a) = Some (Some a)"
        using step nxt True take(1) by (simp add: best_fit_loop.simps)
      moreover have "t # ts = [] @ t # []" using True by simp
      ultimately show ?thesis using take(2,3)
        by (intro exI[of _ "Some a"] conjI disjI2 exI[of _ "[]"] exI[of _ t]) auto
    next
      case False
      from Cons.IH[OF r False, of "Some a"] obtain res where
        res: "best_fit_loop m e sz (Some a) (Some (a + \<bar>t\<bar>)) = Some res"
        and alt: "(res = Some a \<and> (\<forall>u \<in> set ts. candidate sz u \<longrightarrow> (\<exists>r. Some a = Some r \<and> \<bar>load_int m r\<bar> \<le> \<bar>u\<bar>)))
            \<or> (\<exists>xs t' ys. ts = xs @ t' # ys \<and> res = Some (a + \<bar>t\<bar> + total_size xs) \<and> candidate sz t'
                  \<and> (\<forall>u \<in> set xs. candidate sz u \<longrightarrow> \<bar>t'\<bar> < \<bar>u\<bar>)
                  \<and> (\<forall>u \<in> set ys. candidate sz u \<longrightarrow> \<bar>t'\<bar> \<le> \<bar>u\<bar>)
                  \<and> (\<forall>r. Some a = Some r \<longrightarrow> \<bar>t'\<bar> < \<bar>load_int m r\<bar>))"
        by blast
      have eq: "best_fit_loop m e sz acc (Some a) = Some res"
        using step nxt False take(1) res by simp
      from alt show ?thesis
      proof
        assume a1: "res = Some a \<and> (\<forall>u \<in> set ts. candidate sz u \<longrightarrow> (\<exists>r. Some a = Some r \<and> \<bar>load_int m r\<bar> \<le> \<bar>u\<bar>))"
        have "t # ts = [] @ t # ts" by simp
        moreover have "res = Some (a + total_size [])" using a1 by simp
        moreover have "\<forall>u \<in> set ts. candidate sz u \<longrightarrow> \<bar>t\<bar> \<le> \<bar>u\<bar>" using a1 l by auto
        moreover have "\<forall>u \<in> set []. candidate sz u \<longrightarrow> \<bar>t\<bar> < \<bar>u\<bar>" by simp
        ultimately show ?thesis using eq take(2,3) by blast
      next
        assume "\<exists>xs t' ys. ts = xs @ t' # ys \<and> res = Some (a + \<bar>t\<bar> + total_size xs) \<and> candidate sz t'
                  \<and> (\<forall>u \<in> set xs. candidate sz u \<longrightarrow> \<bar>t'\<bar> < \<bar>u\<bar>)
                  \<and> (\<forall>u \<in> set ys. candidate sz u \<longrightarrow> \<bar>t'\<bar> \<le> \<bar>u\<bar>)
                  \<and> (\<forall>r. Some a = Some r \<longrightarrow> \<bar>t'\<bar> < \<bar>load_int m r\<bar>)"
        then obtain xs t' ys where s: "ts = xs @ t' # ys" "res = Some (a + \<bar>t\<bar> + total_size xs)"
          "candidate sz t'" "\<forall>u \<in> set xs. candidate sz u \<longrightarrow> \<bar>t'\<bar> < \<bar>u\<bar>"
          "\<forall>u \<in> set ys. candidate sz u \<longrightarrow> \<bar>t'\<bar> \<le> \<bar>u\<bar>"
          "\<bar>t'\<bar> < \<bar>load_int m a\<bar>" by blast
        have "t # ts = (t # xs) @ t' # ys" using s(1) by simp
        moreover have "res = Some (a + total_size (t # xs))" using s(2) by simp
        moreover have "\<forall>u \<in> set (t # xs). candidate sz u \<longrightarrow> \<bar>t'\<bar> < \<bar>u\<bar>"
          using s(4) s(6) l by auto
        moreover have "\<forall>r. acc = Some r \<longrightarrow> \<bar>t'\<bar> < \<bar>load_int m r\<bar>"
          using take(3) s(6) l by auto
        ultimately show ?thesis using eq s(3,5) by blast
      qed
    qed
  qed
qed

lemma best_fit_block_tiles:
  assumes "tiles m 0 e ts" "ts \<noteq> []"
  shows "(\<not> (\<exists>t \<in> set ts. candidate sz t) \<and> best_fit_block m e sz = Some None) \<or>
         (\<exists>xs t ys. ts = xs @ t # ys \<and> best_fit_block m e sz = Some (Some (total_size xs))
             \<and> candidate sz t
             \<and> (\<forall>u \<in> set xs. candidate sz u \<longrightarrow> \<bar>t\<bar> < \<bar>u\<bar>)
             \<and> (\<forall>u \<in> set ys. candidate sz u \<longrightarrow> \<bar>t\<bar> \<le> \<bar>u\<bar>))"
  using best_fit_loop_tiles[OF assms, where acc = None and sz = sz] unfolding best_fit_block_def
  by (elim exE conjE disjE) auto

lemma candidate_eligible:
  assumes "0 < sz" "sz + 8 \<le> INT_MAX"
  shows "candidate sz t = eligible sz t"
proof -
  have "to_int (sz + 8) = sz + 8" using assms by (intro to_int_id) (auto simp: INT_MAX_def)
  then show ?thesis by (simp add: candidate_def eligible_def)
qed

lemma candidate_overflow:
  assumes "INT_MAX < sz + 8" "sz \<le> INT_MAX"
  shows "candidate sz t \<longleftrightarrow> 0 < t"
proof -
  have "(sz + 8) mod 4294967296 = sz + 8"
    using assms by (intro mod_pos_pos_trivial) (auto simp: INT_MAX_def)
  then have "to_int (sz + 8) = sz + 8 - 4294967296"
    using assms by (simp add: to_int_def INT_MAX_def)
  then have "to_int (sz + 8) < 0" using assms by (simp add: INT_MAX_def)
  then show ?thesis by (auto simp: candidate_def)
qed

lemma candidate_pos: "candidate sz t \<Longrightarrow> 0 < t"
  by (simp add: candidate_def)

lemma to_size_t_id: "0 \<le> v \<Longrightarrow> v < 18446744073709551616 \<Longrightarrow> to_size_t v = v"
  by (simp add: to_size_t_def)

lemma store_int_cong_mod:
  "v mod 4294967296 = v' mod 4294967296 \<Longrightarrow> store_int m p v = store_int m p v'"
  using store_int_to_int[of m p v] store_int_to_int[of m p v'] by (simp add: to_int_def)

lemma mod_64_32: "(v mod 18446744073709551616) mod 4294967296 = v mod 4294967296" for v :: int
  by (rule mod_mod_cancel) simp

lemma store_size_t: "store_int m p (to_size_t v) = store_int m p v"
  by (rule store_int_cong_mod) (simp add: to_size_t_def mod_64_32)

lemma to_size_t_mod: "to_size_t v mod 4294967296 = v mod 4294967296"
  by (simp add: to_size_t_def mod_64_32)

lemma store_neg_size_t:
  "store_int m p (to_size_t (to_size_t (to_size_t sz + 2 * sizeof_int) * to_size_t (- 1)))
     = store_int m p (- (sz + 8))"
proof (rule store_int_cong_mod)
  have "to_size_t (to_size_t (to_size_t sz + 2 * sizeof_int) * to_size_t (- 1)) mod 4294967296
      = (to_size_t (to_size_t sz + 2 * sizeof_int) * to_size_t (- 1)) mod 4294967296"
    by (rule to_size_t_mod)
  also have "\<dots> = ((sz + 8) * (- 1)) mod 4294967296"
  proof (rule mod_mult_cong)
    have "to_size_t (to_size_t sz + 2 * sizeof_int) mod 4294967296
        = (to_size_t sz + 8) mod 4294967296"
      by (simp add: to_size_t_mod sizeof_int_def)
    also have "\<dots> = (sz + 8) mod 4294967296"
      by (intro mod_add_cong refl to_size_t_mod)
    finally show "to_size_t (to_size_t sz + 2 * sizeof_int) mod 4294967296 = (sz + 8) mod 4294967296" .
    show "to_size_t (- 1) mod 4294967296 = (- 1) mod 4294967296"
      by (rule to_size_t_mod)
  qed
  finally show "to_size_t (to_size_t (to_size_t sz + 2 * sizeof_int) * to_size_t (- 1)) mod 4294967296
      = (- (sz + 8)) mod 4294967296"
    by simp
qed

lemma store_rem_size_t:
  "store_int m p (to_size_t (to_size_t orig - to_size_t (to_size_t sz + 2 * sizeof_int)))
     = store_int m p (orig - (sz + 8))"
proof (rule store_int_cong_mod)
  have "to_size_t (to_size_t orig - to_size_t (to_size_t sz + 2 * sizeof_int)) mod 4294967296
      = (to_size_t orig - to_size_t (to_size_t sz + 2 * sizeof_int)) mod 4294967296"
    by (rule to_size_t_mod)
  also have "\<dots> = (orig - (sz + 8)) mod 4294967296"
  proof (rule mod_diff_cong)
    show "to_size_t orig mod 4294967296 = orig mod 4294967296"
      by (rule to_size_t_mod)
    have "to_size_t (to_size_t sz + 2 * sizeof_int) mod 4294967296
        = (to_size_t sz + 8) mod 4294967296"
      by (simp add: to_size_t_mod sizeof_int_def)
    also have "\<dots> = (sz + 8) mod 4294967296"
      by (intro mod_add_cong refl to_size_t_mod)
    finally show "to_size_t (to_size_t sz + 2 * sizeof_int) mod 4294967296 = (sz + 8) mod 4294967296" .
  qed
  finally show "to_size_t (to_size_t orig - to_size_t (to_size_t sz + 2 * sizeof_int)) mod 4294967296
      = (orig - (sz + 8)) mod 4294967296" .
qed

lemma split_test_size_t:
  assumes "0 < sz" "sz \<le> INT_MAX" "0 < t" "t < 2147483648"
  shows "to_size_t \<bar>t\<bar> \<ge> to_size_t (to_size_t sz + 4 * sizeof_int) \<longleftrightarrow> t \<ge> sz + 16"
proof -
  have "to_size_t sz = sz" using assms by (intro to_size_t_id) (auto simp: INT_MAX_def)
  moreover have "to_size_t (sz + 16) = sz + 16"
    using assms by (intro to_size_t_id) (auto simp: INT_MAX_def)
  moreover have "to_size_t \<bar>t\<bar> = t" using assms by (simp add: to_size_t_def)
  ultimately show ?thesis by (simp add: sizeof_int_def)
qed

section \<open>Allocation on a layout\<close>

lemma tiles_at:
  assumes "tiles m a e (xs @ t # ys)"
  shows "load_int m (a + total_size xs) = t" "load_int m (a + total_size xs + \<bar>t\<bar> - 4) = t" "8 \<le> \<bar>t\<bar>"
    "- 2147483648 \<le> t" "t < 2147483648"
  using assms load_int_range[of m "a + total_size xs"] by (auto simp: tiles_append)

lemma myalloc_fail:
  "best_fit_block (mem s) (end_ptr s) sz = Some None \<Longrightarrow>
   myalloc s sz = Some (None, s\<lparr>stderr := stderr s @ [Cannot_service sz]\<rparr>)"
  by (simp add: myalloc_def)

lemma myalloc_split:
  assumes "best_fit_block (mem s) (end_ptr s) sz = Some (Some h)"
    and "load_int (mem s) h = t" "0 < sz" "sz + 16 \<le> t"
  shows "myalloc s sz = Some (Some (h + 4),
           s\<lparr>mem := store_int (store_int (store_int (store_int (mem s)
                        h (- (sz + 8))) (h + sz + 4) (- (sz + 8)))
                        (h + sz + 8) (t - (sz + 8))) (h + t - 4) (t - (sz + 8))\<rparr>)"
proof -
  have r: "t < 2147483648" using load_int_range[of "mem s" h] assms(2) by simp
  have b: "sz \<le> INT_MAX" "0 < t" using assms r by (auto simp: INT_MAX_def)
  have test: "to_size_t \<bar>load_int (mem s) h\<bar> \<ge> to_size_t (to_size_t sz + 4 * sizeof_int)"
    using split_test_size_t[OF assms(3) b r] assms by simp
  have a: "to_int (- sz - 8) = - sz - 8" using assms r by (intro to_int_id) auto
  have b: "to_int (t - (sz + 8)) = t - (sz + 8)" using assms r by (intro to_int_id) auto
  have c: "\<bar>t\<bar> = t" "\<bar>- sz - 8\<bar> = sz + 8" "\<bar>t - (sz + 8)\<bar> = t - (sz + 8)"
    using assms by auto
  show ?thesis
    unfolding myalloc_def Let_def store_neg_size_t store_rem_size_t
    using test assms(2)
    by (simp add: assms(1) get_footer_def load_store_same a b c sizeof_int_def algebra_simps)
qed

lemma myalloc_nosplit:
  assumes "best_fit_block (mem s) (end_ptr s) sz = Some (Some h)"
    and "load_int (mem s) h = t" "load_int (mem s) (h + t - 4) = t"
    and "0 < sz" "sz \<le> INT_MAX" "8 \<le> t" "t < sz + 16"
  shows "myalloc s sz = Some (Some (h + 4),
           s\<lparr>mem := store_int (store_int (mem s) h (- t)) (h + t - 4) (- t)\<rparr>)"
proof -
  have r: "t < 2147483648" using load_int_range[of "mem s" h] assms(2) by simp
  have p: "0 < t" using assms(6) by simp
  have test: "\<not> to_size_t \<bar>load_int (mem s) h\<bar> \<ge> to_size_t (to_size_t sz + 4 * sizeof_int)"
    using split_test_size_t[OF assms(4,5) p r] assms by simp
  have a: "to_int (- t) = - t" using assms r by (intro to_int_id) auto
  have c: "\<bar>t\<bar> = t" "\<bar>- t\<bar> = t"
    using assms by auto
  have d: "load_int (store_int (mem s) h (- t)) (h + t - 4) = t"
    using assms by (subst load_store_other) auto
  show ?thesis
    unfolding myalloc_def
    using test assms(2) d
    by (simp add: assms(1) Let_def get_footer_def load_store_same a c sizeof_int_def)
qed

section \<open>Initialisation\<close>

lemma init_fresh_pool: "init_myalloc c (Some zero_memory) = Inr (fresh_pool c)"
  by (simp add: init_myalloc_def fresh_pool_def sizeof_int_def)

lemma arena_nonempty: "arena s ts \<Longrightarrow> ts \<noteq> []"
  by (auto simp: arena_def)

lemma init_arena:
  assumes "8 \<le> c" "c < 2147483648" "init_myalloc c (Some m0) = Inr s"
  shows "arena s [c]"
proof -
  have "to_int c = c" using assms by (intro to_int_id) auto
  moreover have "load_int (store_int (store_int m0 0 c) (c - 4) c) 0 = load_int (store_int m0 0 c) 0"
    using assms by (intro load_store_other) auto
  ultimately show ?thesis
    using assms by (auto simp: init_myalloc_def arena_def sizeof_int_def load_store_same)
qed

section \<open>The stores of an allocation\<close>

lemma split_frame:
  assumes "x < h \<or> h + t \<le> x" "0 < sz" "sz + 16 \<le> t"
  shows "store_int (store_int (store_int (store_int m
                        h (- (sz + 8))) (h + sz + 4) (- (sz + 8)))
                        (h + sz + 8) (t - (sz + 8))) (h + t - 4) (t - (sz + 8)) x = m x"
proof -
  have "x < h \<or> h + 4 \<le> x" "x < h + sz + 4 \<or> h + sz + 4 + 4 \<le> x"
    "x < h + sz + 8 \<or> h + sz + 8 + 4 \<le> x" "x < h + t - 4 \<or> h + t - 4 + 4 \<le> x"
    using assms by auto
  then show ?thesis by (simp only: store_frame)
qed

lemma split_loads:
  fixes m :: memory and h sz t :: int
  assumes "0 < sz" "sz + 16 \<le> t" "t < 2147483648"
  defines "m' \<equiv> store_int (store_int (store_int (store_int m
                        h (- (sz + 8))) (h + sz + 4) (- (sz + 8)))
                        (h + sz + 8) (t - (sz + 8))) (h + t - 4) (t - (sz + 8))"
  shows "load_int m' h = - (sz + 8)" "load_int m' (h + sz + 4) = - (sz + 8)"
    "load_int m' (h + sz + 8) = t - (sz + 8)" "load_int m' (h + t - 4) = t - (sz + 8)"
proof -
  have a: "to_int (- (sz + 8)) = - (sz + 8)" using assms by (intro to_int_id) auto
  have b: "to_int (t - (sz + 8)) = t - (sz + 8)" using assms by (intro to_int_id) auto
  show "load_int m' h = - (sz + 8)"
    unfolding m'_def using assms(1,2)
    apply (subst load_store_other, linarith)
    apply (subst load_store_other, linarith)
    apply (subst load_store_other, linarith)
    apply (simp only: load_store_same a)
    done
  show "load_int m' (h + sz + 4) = - (sz + 8)"
    unfolding m'_def using assms(1,2)
    apply (subst load_store_other, linarith)
    apply (subst load_store_other, linarith)
    apply (simp only: load_store_same a)
    done
  show "load_int m' (h + sz + 8) = t - (sz + 8)"
    unfolding m'_def using assms(1,2)
    apply (subst load_store_other, linarith)
    apply (simp only: load_store_same b)
    done
  show "load_int m' (h + t - 4) = t - (sz + 8)"
    unfolding m'_def by (simp only: load_store_same b)
qed

lemma split_layout:
  fixes m :: memory and sz t :: int
  assumes t: "tiles m 0 e (xs @ t # ys)" and sz: "0 < sz" "sz + 16 \<le> t"
  defines "h \<equiv> total_size xs"
  defines "m' \<equiv> store_int (store_int (store_int (store_int m
                        h (- (sz + 8))) (h + sz + 4) (- (sz + 8)))
                        (h + sz + 8) (t - (sz + 8))) (h + t - 4) (t - (sz + 8))"
  shows "tiles m' 0 e (xs @ (- (sz + 8)) # (t - (sz + 8)) # ys)"
proof -
  from t have pre: "tiles m 0 h xs" and suf: "tiles m (h + \<bar>t\<bar>) e ys"
    by (auto simp: tiles_append h_def)
  have r: "t < 2147483648" using tiles_at(5)[OF t] .
  have abs: "\<bar>t\<bar> = t" "\<bar>- (sz + 8)\<bar> = sz + 8" "\<bar>t - (sz + 8)\<bar> = t - (sz + 8)"
    using sz by auto
  have fr: "m' x = m x" if "x < h \<or> h + t \<le> x" for x
    unfolding m'_def using that sz by (rule split_frame)
  have pre': "tiles m' 0 h xs"
    using pre by (rule tiles_frame) (simp add: fr)
  have suf': "tiles m' (h + t) e ys"
    using suf unfolding abs(1) by (rule tiles_frame) (simp add: fr)
  note l = split_loads[OF sz r, of m h, folded m'_def]
  have e1: "h + \<bar>- (sz + 8)\<bar> - 4 = h + sz + 4" "h + \<bar>- (sz + 8)\<bar> = h + sz + 8"
    "h + sz + 8 + \<bar>t - (sz + 8)\<bar> - 4 = h + t - 4" "h + sz + 8 + \<bar>t - (sz + 8)\<bar> = h + t"
    "8 \<le> \<bar>- (sz + 8)\<bar>" "8 \<le> \<bar>t - (sz + 8)\<bar>" "h + sz + 8 - 4 = h + sz + 4"
    using sz by auto
  have "tiles m' h e ((- (sz + 8)) # (t - (sz + 8)) # ys)"
    by (simp only: tiles.simps e1 l suf' simp_thms)
  with pre' show ?thesis by (simp add: tiles_append h_def)
qed

lemma block_frame:
  assumes "x < h \<or> h + n \<le> x" "8 \<le> n"
  shows "store_int (store_int m h u) (h + n - 4) u x = m x"
proof -
  have "x < h \<or> h + 4 \<le> x" "x < h + n - 4 \<or> h + n - 4 + 4 \<le> x"
    using assms by auto
  then show ?thesis by (simp only: store_frame)
qed

lemma block_loads:
  fixes m :: memory and h n u :: int
  assumes "8 \<le> n" "- 2147483648 \<le> u" "u < 2147483648"
  defines "m' \<equiv> store_int (store_int m h u) (h + n - 4) u"
  shows "load_int m' h = u" "load_int m' (h + n - 4) = u"
proof -
  have a: "to_int u = u" using assms by (intro to_int_id) auto
  show "load_int m' h = u"
    unfolding m'_def using assms(1)
    apply (subst load_store_other, linarith)
    apply (simp only: load_store_same a)
    done
  show "load_int m' (h + n - 4) = u"
    unfolding m'_def by (simp only: load_store_same a)
qed

lemma block_layout:
  fixes m :: memory and u :: int
  assumes t: "tiles m 0 e (xs @ zs @ ys)" and n: "total_size zs = \<bar>u\<bar>" "8 \<le> \<bar>u\<bar>"
    and r: "- 2147483648 \<le> u" "u < 2147483648"
  defines "h \<equiv> total_size xs"
  defines "m' \<equiv> store_int (store_int m h u) (h + \<bar>u\<bar> - 4) u"
  shows "tiles m' 0 e (xs @ u # ys)"
proof -
  from t have pre: "tiles m 0 h xs" and suf: "tiles m (h + \<bar>u\<bar>) e ys"
    by (auto simp: tiles_append h_def n(1)[symmetric])
  have fr: "m' x = m x" if "x < h \<or> h + \<bar>u\<bar> \<le> x" for x
    unfolding m'_def using that n(2) by (rule block_frame)
  have pre': "tiles m' 0 h xs"
    using pre by (rule tiles_frame) (simp add: fr)
  have suf': "tiles m' (h + \<bar>u\<bar>) e ys"
    using suf by (rule tiles_frame) (simp add: fr)
  note l = block_loads[OF n(2) r, of m h, folded m'_def]
  have "tiles m' h e (u # ys)"
    by (simp only: tiles.simps l suf' n(2) simp_thms)
  with pre' show ?thesis by (simp add: tiles_append h_def)
qed

section \<open>The outcome of an allocation\<close>

lemma myalloc_success:
  assumes ar: "arena s (xs @ t # ys)"
    and bf: "best_fit_block (mem s) (end_ptr s) sz = Some (Some (total_size xs))"
    and el: "candidate sz t" and sz: "0 < sz" "sz \<le> INT_MAX"
  shows "myalloc s sz = Some (Some (total_size xs + 4),
           s\<lparr>mem := (if sz + 16 \<le> t
                      then store_int (store_int (store_int (store_int (mem s)
                             (total_size xs) (- (sz + 8))) (total_size xs + sz + 4) (- (sz + 8)))
                             (total_size xs + sz + 8) (t - (sz + 8))) (total_size xs + t - 4) (t - (sz + 8))
                      else store_int (store_int (mem s) (total_size xs) (- t))
                             (total_size xs + t - 4) (- t))\<rparr>)"
proof -
  from ar have t: "tiles (mem s) 0 (end_ptr s) (xs @ t # ys)" by (auto simp: arena_def)
  from el have el': "0 < t" by (rule candidate_pos)
  have l: "load_int (mem s) (total_size xs) = t" "load_int (mem s) (total_size xs + t - 4) = t"
    using tiles_at(1,2)[OF t] el' by simp_all
  show ?thesis
  proof (cases "sz + 16 \<le> t")
    case True
    then show ?thesis using myalloc_split[OF bf l(1) sz(1) True] by simp
  next
    case False
    then have "t < sz + 16" by simp
    moreover have "8 \<le> t" using tiles_at(3)[OF t] el' by simp
    ultimately show ?thesis using myalloc_nosplit[OF bf l sz] False by simp
  qed
qed

lemma myalloc_success_arena:
  assumes ar: "arena s (xs @ t # ys)" and el: "candidate sz t" and sz: "0 < sz"
  shows "arena (s\<lparr>mem := (if sz + 16 \<le> t
                      then store_int (store_int (store_int (store_int (mem s)
                             (total_size xs) (- (sz + 8))) (total_size xs + sz + 4) (- (sz + 8)))
                             (total_size xs + sz + 8) (t - (sz + 8))) (total_size xs + t - 4) (t - (sz + 8))
                      else store_int (store_int (mem s) (total_size xs) (- t))
                             (total_size xs + t - 4) (- t))\<rparr>)
           (xs @ (if sz + 16 \<le> t then [- (sz + 8), t - (sz + 8)] else [- t]) @ ys)"
proof -
  from ar have t: "tiles (mem s) 0 (end_ptr s) (xs @ t # ys)" by (auto simp: arena_def)
  from el have el': "0 < t" by (rule candidate_pos)
  show ?thesis
  proof (cases "sz + 16 \<le> t")
    case True
    then show ?thesis using split_layout[OF t sz True] ar by (simp add: arena_def)
  next
    case False
    have t': "tiles (mem s) 0 (end_ptr s) (xs @ [t] @ ys)" using t by simp
    have "tiles (store_int (store_int (mem s) (total_size xs) (- t))
                   (total_size xs + \<bar>- t\<bar> - 4) (- t)) 0 (end_ptr s) (xs @ (- t) # ys)"
      using tiles_at(3,5)[OF t] el' by (intro block_layout[OF t']) auto
    then show ?thesis using False el' ar by (simp add: arena_def)
  qed
qed

section \<open>Coalescing two free neighbours\<close>

lemma pair_sum_bound:
  assumes "tiles m 0 e (xs @ a # b # ys)" "e < 2147483648"
  shows "\<bar>a\<bar> + \<bar>b\<bar> < 2147483648"
  using tiles_end[OF assms(1)] total_size_nonneg[of xs] total_size_nonneg[of ys] assms(2)
  by simp

lemma back_coalesce_tiles:
  assumes t: "tiles m 0 e (xs @ a # b # ys)" and pos: "0 < a" "0 < b" and e: "e < 2147483648"
  shows "back_coalesce m (total_size xs + a) =
           (store_int (store_int m (total_size xs) (a + b)) (total_size xs + (a + b) - 4) (a + b),
            total_size xs)"
proof -
  let ?h = "total_size xs"
  have a: "load_int m ?h = a" "load_int m (?h + a - 4) = a" "8 \<le> a"
    using tiles_at(1,2,3)[OF t] pos by simp_all
  have t': "tiles m 0 e ((xs @ [a]) @ b # ys)" using t by simp
  have b: "load_int m (?h + a) = b" "load_int m (?h + a + b - 4) = b" "8 \<le> b"
    using tiles_at(1,2,3)[OF t'] pos by simp_all
  have s: "to_int (a + b) = a + b"
    using pair_sum_bound[OF t e] pos by (intro to_int_id) auto
  have h1: "?h + a - 4 - \<bar>a\<bar> + 4 = ?h" using pos by simp
  have l1: "load_int (store_int m ?h (a + b)) ?h = a + b" by (simp only: load_store_same s)
  have f1: "?h + \<bar>a + b\<bar> - 4 = ?h + (a + b) - 4" using pos by simp
  have l2: "load_int (store_int m ?h (a + b)) (?h + (a + b) - 4) = b"
    using a(3) b(2,3) by (subst load_store_other) (auto simp: algebra_simps)
  have l3: "load_int (store_int (store_int m ?h (a + b)) (?h + (a + b) - 4) (a + b)) (?h + (a + b) - 4) = a + b"
    using s by (simp only: load_store_same)
  have h2: "?h + (a + b) - 4 - \<bar>a + b\<bar> + 4 = ?h" using pos by simp
  show ?thesis
    unfolding back_coalesce_def Let_def get_header_def get_footer_def sizeof_int_def
    by (simp only: a b h1 l1 f1 l2 l3 h2 add.commute[of b a])
qed

lemma fwd_coalesce_tiles:
  assumes t: "tiles m 0 e (xs @ a # b # ys)" and pos: "0 < a" "0 < b" and e: "e < 2147483648"
  shows "fwd_coalesce m e (total_size xs) =
           Some (store_int (store_int m (total_size xs) (a + b)) (total_size xs + (a + b) - 4) (a + b))"
proof -
  let ?h = "total_size xs"
  have a: "load_int m ?h = a" "load_int m (?h + a - 4) = a" "8 \<le> a"
    using tiles_at(1,2,3)[OF t] pos by simp_all
  have t': "tiles m 0 e ((xs @ [a]) @ b # ys)" using t by simp
  have b: "load_int m (?h + a) = b" "load_int m (?h + a + b - 4) = b" "8 \<le> b"
    using tiles_at(1,2,3)[OF t'] pos by simp_all
  have "tiles m ?h e (a # b # ys)" using t by (simp add: tiles_append)
  from get_next_header_tiles[OF this]
  have n: "get_next_header m e ?h = Some (?h + a)" using pos by simp
  have s: "to_int (a + b) = a + b"
    using pair_sum_bound[OF t e] pos by (intro to_int_id) auto
  have h1: "?h + a - 4 - \<bar>a\<bar> + 4 = ?h" using pos by simp
  have l1: "load_int (store_int m ?h (a + b)) ?h = a + b" by (simp only: load_store_same s)
  have f1: "?h + \<bar>a + b\<bar> - 4 = ?h + (a + b) - 4" using pos by simp
  have l2: "load_int (store_int m ?h (a + b)) (?h + (a + b) - 4) = b"
    using a(3) b(2,3) by (subst load_store_other) (auto simp: algebra_simps)
  show ?thesis
    unfolding fwd_coalesce_def Let_def get_header_def get_footer_def sizeof_int_def
    by (simp only: n option.case a b h1 l1 f1 l2 add.commute[of b a])
qed

section \<open>Freeing on a layout\<close>

lemma myfree_start:
  assumes t: "tiles (mem s) 0 e (xs @ t # ys)" and neg: "t < 0" and e: "e < 2147483648"
  defines "h \<equiv> total_size xs"
  defines "n \<equiv> - t"
  defines "m2 \<equiv> store_int (store_int (mem s) h n) (h + n - 4) n"
  shows "myfree s (h + 4) =
     (let (m, newptr) =
            (if h \<noteq> 0 then
               (if load_int m2 (h - 4) > 0 then back_coalesce m2 h
                else (m2, h))
             else (m2, h))
      in case get_next_header m (end_ptr s) newptr of
           None \<Rightarrow> Some (s\<lparr>mem := m\<rparr>)
         | Some newptr \<Rightarrow>
             (if load_int m newptr > 0 then
                map_option (\<lambda>m. s\<lparr>mem := m\<rparr>) (fwd_coalesce m (end_ptr s) (get_header m (newptr - 4)))
              else Some (s\<lparr>mem := m\<rparr>)))"
    and "tiles m2 0 e (xs @ n # ys)"
    and "\<And>x. x < h \<or> h + n \<le> x \<Longrightarrow> m2 x = mem s x"
    and "\<And>x. m2 x \<noteq> mem s x \<Longrightarrow> x \<in> {h ..< h + 4} \<union> {h + n - 4 ..< h + n}"
proof -
  have l: "load_int (mem s) h = t" "load_int (mem s) (h + \<bar>t\<bar> - 4) = t" "8 \<le> \<bar>t\<bar>"
    using tiles_at(1,2,3)[OF t] by (simp_all add: h_def)
  have n8: "8 \<le> n" "\<bar>n\<bar> = n" "\<bar>t\<bar> = n" using l(3) neg by (simp_all add: n_def)
  have "total_size (xs @ t # ys) = e" using tiles_end[OF t] by simp
  then have "n \<le> e" using total_size_nonneg[of xs] total_size_nonneg[of ys] n8 by simp
  then have r: "- 2147483648 \<le> n" "n < 2147483648" using e n8 by auto
  have ti: "to_int n = n" using r by (rule to_int_id)
  have f0: "h + 4 - 4 = h" by simp
  have f1: "load_int (mem s) h * - 1 = n" using l(1) by (simp add: n_def)
  have f2: "get_footer (store_int (mem s) h n) h = h + n - 4"
    by (simp add: get_footer_def load_store_same ti n8 sizeof_int_def)
  have "load_int (store_int (mem s) h n) (h + n - 4) = load_int (mem s) (h + n - 4)"
    using n8(1) by (intro load_store_other) auto
  then have f3: "load_int (store_int (mem s) h n) (h + n - 4) * - 1 = n"
    using l(2) n8 by (simp add: n_def)
  have f4: "get_header m2 (h + n - 4) = h"
    by (simp add: get_header_def m2_def load_store_same ti n8 sizeof_int_def)
  show "myfree s (h + 4) =
     (let (m, newptr) =
            (if h \<noteq> 0 then
               (if load_int m2 (h - 4) > 0 then back_coalesce m2 h
                else (m2, h))
             else (m2, h))
      in case get_next_header m (end_ptr s) newptr of
           None \<Rightarrow> Some (s\<lparr>mem := m\<rparr>)
         | Some newptr \<Rightarrow>
             (if load_int m newptr > 0 then
                map_option (\<lambda>m. s\<lparr>mem := m\<rparr>) (fwd_coalesce m (end_ptr s) (get_header m (newptr - 4)))
              else Some (s\<lparr>mem := m\<rparr>)))"
    unfolding myfree_def Let_def sizeof_int_def
    by (simp only: f0 f1 f2 f3 f4 m2_def[symmetric])
  have t': "tiles (mem s) 0 e (xs @ [t] @ ys)" using t by simp
  have "tiles (store_int (store_int (mem s) (total_size xs) n) (total_size xs + \<bar>n\<bar> - 4) n) 0 e (xs @ n # ys)"
    using n8 r by (intro block_layout[OF t']) auto
  then show "tiles m2 0 e (xs @ n # ys)" by (simp add: m2_def h_def n8)
  show "m2 x = mem s x" if "x < h \<or> h + n \<le> x" for x
    unfolding m2_def using that n8(1) by (rule block_frame)
  then show "x \<in> {h ..< h + 4} \<union> {h + n - 4 ..< h + n}" if "m2 x \<noteq> mem s x" for x
    using that unfolding m2_def by (auto simp: store_int_def split: if_splits)
qed


lemma block_footprint:
  "store_int (store_int m h u) f u x \<noteq> m x \<Longrightarrow> x \<in> {h ..< h + 4} \<union> {f ..< f + 4}"
  by (auto simp: store_int_def split: if_splits)

lemma myfree_layout:
  assumes t: "tiles (mem s) 0 (end_ptr s) (xs @ t # ys)" and neg: "t < 0"
    and e: "end_ptr s < 2147483648"
  shows "\<exists>m'. myfree s (total_size xs + 4) = Some (s\<lparr>mem := m'\<rparr>) \<and>
           tiles m' 0 (end_ptr s) (coalesce xs t ys) \<and>
           (\<forall>x. m' x \<noteq> mem s x \<longrightarrow> x \<in> free_footprint xs t ys)"
proof -
  define h where "h = total_size xs"
  define n where "n = - t"
  define m2 where "m2 = store_int (store_int (mem s) h n) (h + n - 4) n"
  let ?e = "end_ptr s"
  note st = myfree_start[OF t neg e, folded h_def n_def, folded m2_def]
  have n8: "8 \<le> n" "\<bar>t\<bar> = n" using tiles_at(3)[OF t] neg by (simp_all add: n_def)
  obtain mA xsA S where
    A1: "(if h \<noteq> 0 then (if load_int m2 (h - 4) > 0 then back_coalesce m2 h else (m2, h))
          else (m2, h)) = (mA, total_size xsA)"
    and A2: "tiles mA 0 ?e (xsA @ S # ys)"
    and A3: "xsA = (if free_left xs then butlast xs else xs)"
            "S = (if free_left xs then last xs else 0) + n"
    and A4: "\<And>x. mA x \<noteq> mem s x \<Longrightarrow> x \<in> {h ..< h + 4} \<union> {h + n - 4 ..< h + n} \<union>
                (if free_left xs then {h - last xs ..< h - last xs + 4} else {})"
  proof (cases "xs = []")
    case True
    then have "h = 0" by (simp add: h_def)
    with True show ?thesis
      using that[of m2 "[]" n] st(2) st(4) by (simp add: free_left_def)
  next
    case False
    then obtain xs0 l where xs: "xs = xs0 @ [l]" by (metis append_butlast_last_id)
    have t2: "tiles m2 0 ?e (xs0 @ l # n # ys)" using st(2) xs by simp
    have l: "load_int m2 (total_size xs0 + \<bar>l\<bar> - 4) = l" "8 \<le> \<bar>l\<bar>"
      using tiles_at(2,3)[OF t2] by simp_all
    have hh: "h = total_size xs0 + \<bar>l\<bar>" by (simp add: h_def xs)
    have h0: "h \<noteq> 0" using hh l(2) total_size_nonneg[of xs0] by simp
    have lf: "load_int m2 (h - 4) = l" using l(1) hh by simp
    show ?thesis
    proof (cases "l > 0")
      case False
      then have "\<not> free_left xs" by (simp add: free_left_def xs)
      then show ?thesis
        using that[of m2 xs n] h0 lf False st(2) st(4) by (simp add: h_def)
    next
      case True
      then have fl: "free_left xs" "last xs = l" "butlast xs = xs0" by (simp_all add: free_left_def xs)
      have hl: "h = total_size xs0 + l" using hh True by simp
      have npos: "0 < n" using n8 by simp
      define mA where "mA = store_int (store_int m2 (total_size xs0) (l + n)) (total_size xs0 + (l + n) - 4) (l + n)"
      have bc: "back_coalesce m2 h = (mA, total_size xs0)"
        unfolding hl mA_def by (rule back_coalesce_tiles[OF t2 True npos e])
      have t2': "tiles m2 0 ?e (xs0 @ [l, n] @ ys)" using t2 by simp
      have "\<bar>l\<bar> + \<bar>n\<bar> < 2147483648" by (rule pair_sum_bound[OF t2 e])
      then have "tiles (store_int (store_int m2 (total_size xs0) (l + n))
                    (total_size xs0 + \<bar>l + n\<bar> - 4) (l + n)) 0 ?e (xs0 @ (l + n) # ys)"
        using True npos l(2) by (intro block_layout[OF t2']) auto
      then have lay: "tiles mA 0 ?e (xs0 @ (l + n) # ys)"
        using True npos by (simp add: mA_def)
      have fp: "x \<in> {h ..< h + 4} \<union> {h + n - 4 ..< h + n} \<union> {h - l ..< h - l + 4}"
        if "mA x \<noteq> mem s x" for x
      proof (cases "mA x = m2 x")
        case True
        then show ?thesis using that st(4)[of x] by auto
      next
        case False
        from block_footprint[OF False[unfolded mA_def]] show ?thesis
          by (auto simp: hl)
      qed
      show ?thesis
      proof (rule that[of mA xs0 "l + n"])
        show "(if h \<noteq> 0 then (if load_int m2 (h - 4) > 0 then back_coalesce m2 h else (m2, h))
          else (m2, h)) = (mA, total_size xs0)"
          using h0 lf True bc by simp
        show "tiles mA 0 ?e (xs0 @ (l + n) # ys)" by (rule lay)
        show "xs0 = (if free_left xs then butlast xs else xs)" using fl by simp
        show "l + n = (if free_left xs then last xs else 0) + n" using fl by simp
        show "x \<in> {h ..< h + 4} \<union> {h + n - 4 ..< h + n} \<union>
                (if free_left xs then {h - last xs ..< h - last xs + 4} else {})"
          if "mA x \<noteq> mem s x" for x
          using fp[OF that] fl by simp
      qed
    qed
  qed
  have Spos: "0 < S" using A3(2) n8 by (auto simp: free_left_def)
  from st(1) A1 have B0: "myfree s (h + 4) =
      (case get_next_header mA ?e (total_size xsA) of
           None \<Rightarrow> Some (s\<lparr>mem := mA\<rparr>)
         | Some newptr \<Rightarrow>
             (if load_int mA newptr > 0 then
                map_option (\<lambda>m. s\<lparr>mem := m\<rparr>) (fwd_coalesce mA ?e (get_header mA (newptr - 4)))
              else Some (s\<lparr>mem := mA\<rparr>)))"
    by simp
  have hS: "total_size xsA + S = h + n"
  proof (cases "free_left xs")
    case True
    then have "xs = butlast xs @ [last xs]" "0 < last xs" by (simp_all add: free_left_def)
    then have "total_size xs = total_size (butlast xs) + last xs"
      by (metis total_size_simps(3) total_size_simps(2) total_size_simps(1) abs_of_pos add.right_neutral)
    then show ?thesis using True A3 by (simp add: h_def)
  next
    case False
    then show ?thesis using A3 by (simp add: h_def)
  qed
  have cur: "total_size xsA = (if free_left xs then h - last xs else h)"
    using hS A3(2) by (simp split: if_splits)
  have tA: "tiles mA (total_size xsA) ?e (S # ys)" using A2 by (simp add: tiles_append)
  have nx: "get_next_header mA ?e (total_size xsA) = (if ys = [] then None else Some (h + n))"
    using get_next_header_tiles[OF tA] Spos hS by simp
  have h_eq: "h = total_size xs" by (simp add: h_def)
  show ?thesis
  proof (cases "free_right ys")
    case False
    have res: "myfree s (h + 4) = Some (s\<lparr>mem := mA\<rparr>)"
    proof (cases "ys = []")
      case True
      then show ?thesis using B0 nx by simp
    next
      case ne: False
      then obtain r ys0 where ys: "ys = r # ys0" by (cases ys) auto
      have "tiles mA 0 ?e ((xsA @ [S]) @ r # ys0)" using A2 ys by simp
      from tiles_at(1)[OF this] have "load_int mA (h + n) = r" using Spos hS by simp
      moreover have "\<not> r > 0" using False ys by (simp add: free_right_def)
      ultimately show ?thesis using B0 nx ne by simp
    qed
    have "coalesce xs t ys = xsA @ S # ys"
      using False A3 n8 by (simp add: coalesce_def)
    moreover have "x \<in> free_footprint xs t ys" if "mA x \<noteq> mem s x" for x
      using A4[OF that] False n8 by (simp add: free_footprint_def Let_def h_eq[symmetric])
    ultimately show ?thesis using res A2 unfolding h_eq by (intro exI[of _ mA]) simp
  next
    case True
    then obtain r ys0 where ys: "ys = r # ys0" and r: "0 < r"
      by (cases ys) (auto simp: free_right_def)
    have tA2: "tiles mA 0 ?e (xsA @ S # r # ys0)" using A2 ys by simp
    have "tiles mA 0 ?e ((xsA @ [S]) @ r # ys0)" using A2 ys by simp
    from tiles_at(1)[OF this] have lr: "load_int mA (h + n) = r" using Spos hS by simp
    have "load_int mA (total_size xsA + \<bar>S\<bar> - 4) = S" using tiles_at(2)[OF A2] by simp
    then have "load_int mA (h + n - 4) = S" using Spos hS by simp
    then have gh: "get_header mA (h + n - 4) = total_size xsA"
      using Spos hS by (simp add: get_header_def sizeof_int_def)
    define mB where "mB = store_int (store_int mA (total_size xsA) (S + r))
                            (total_size xsA + (S + r) - 4) (S + r)"
    have fc: "fwd_coalesce mA ?e (total_size xsA) = Some mB"
      unfolding mB_def by (rule fwd_coalesce_tiles[OF tA2 Spos r e])
    have res: "myfree s (h + 4) = Some (s\<lparr>mem := mB\<rparr>)"
      using B0 nx ys lr r gh fc by simp
    have tA2': "tiles mA 0 ?e (xsA @ [S, r] @ ys0)" using tA2 by simp
    have "\<bar>S\<bar> + \<bar>r\<bar> < 2147483648" by (rule pair_sum_bound[OF tA2 e])
    then have "tiles (store_int (store_int mA (total_size xsA) (S + r))
                    (total_size xsA + \<bar>S + r\<bar> - 4) (S + r)) 0 ?e (xsA @ (S + r) # ys0)"
      using Spos r tiles_at(3)[OF tA2] by (intro block_layout[OF tA2']) auto
    then have lay: "tiles mB 0 ?e (xsA @ (S + r) # ys0)"
      using Spos r by (simp add: mB_def)
    have co: "coalesce xs t ys = xsA @ (S + r) # ys0"
      using True A3 n8 ys by (simp add: coalesce_def)
    have fp: "x \<in> free_footprint xs t ys" if "mB x \<noteq> mem s x" for x
    proof (cases "mB x = mA x")
      case True
      then have "mA x \<noteq> mem s x" using that by simp
      from A4[OF this] show ?thesis
        using n8 by (auto simp: free_footprint_def Let_def h_eq[symmetric] split: if_splits)
    next
      case False
      from block_footprint[OF False[unfolded mB_def]]
      have "x \<in> {total_size xsA ..< total_size xsA + 4} \<union> {h + n + r - 4 ..< h + n + r}"
        using hS by (auto simp: algebra_simps)
      then show ?thesis
        using cur True ys n8
        by (auto simp: free_footprint_def Let_def h_eq[symmetric] split: if_splits)
    qed
    show ?thesis using res lay co fp unfolding h_eq by (intro exI[of _ mB]) simp
  qed
qed

section \<open>Layouts as lists: adjacency and live pointers\<close>

lemma naf_Cons:
  "no_adjacent_free (t # ts) \<longleftrightarrow> (ts = [] \<or> \<not> (t > 0 \<and> hd ts > 0)) \<and> no_adjacent_free ts"
  by (cases ts) auto

lemma naf_append:
  "no_adjacent_free (xs @ ys) \<longleftrightarrow>
     no_adjacent_free xs \<and> no_adjacent_free ys \<and>
     (xs = [] \<or> ys = [] \<or> \<not> (last xs > 0 \<and> hd ys > 0))"
proof (induction xs)
  case Nil
  then show ?case by simp
next
  case (Cons x xs)
  show ?case
  proof (cases "xs = []")
    case True
    then show ?thesis by (auto simp: naf_Cons)
  next
    case False
    then show ?thesis using Cons by (auto simp: naf_Cons)
  qed
qed

lemma ap_append:
  "allocated_ptrs a (xs @ ys) = allocated_ptrs a xs \<union> allocated_ptrs (a + total_size xs) ys"
  by (induction xs arbitrary: a) (auto simp: add.assoc)

lemma ap_bounds:
  "tiles m a e ts \<Longrightarrow> p \<in> allocated_ptrs a ts \<Longrightarrow> a + 4 \<le> p \<and> p + 4 \<le> e"
proof (induction ts arbitrary: a)
  case Nil
  then show ?case by simp
next
  case (Cons t ts)
  from Cons.prems(1) have t8: "8 \<le> \<bar>t\<bar>" and rest: "tiles m (a + \<bar>t\<bar>) e ts" by auto
  from rest have "a + \<bar>t\<bar> \<le> e" by (rule tiles_le)
  show ?case
  proof (cases "p \<in> allocated_ptrs (a + \<bar>t\<bar>) ts")
    case True
    from Cons.IH[OF rest True] t8 show ?thesis by simp
  next
    case False
    with Cons.prems(2) have "p = a + 4" by (auto split: if_splits)
    then show ?thesis using t8 \<open>a + \<bar>t\<bar> \<le> e\<close> by simp
  qed
qed

lemma ap_split:
  "p \<in> allocated_ptrs a ts \<Longrightarrow> \<exists>xs t ys. ts = xs @ t # ys \<and> t < 0 \<and> p = a + total_size xs + 4"
proof (induction ts arbitrary: a)
  case Nil
  then show ?case by simp
next
  case (Cons t ts)
  show ?case
  proof (cases "p \<in> allocated_ptrs (a + \<bar>t\<bar>) ts")
    case True
    from Cons.IH[OF True] obtain xs u ys where
      "ts = xs @ u # ys" "u < 0" "p = a + \<bar>t\<bar> + total_size xs + 4" by blast
    then have "t # ts = (t # xs) @ u # ys \<and> u < 0 \<and> p = a + total_size (t # xs) + 4" by simp
    then show ?thesis by blast
  next
    case False
    with Cons.prems have "t < 0" "p = a + 4" by (auto split: if_splits)
    then have "t # ts = [] @ t # ts \<and> t < 0 \<and> p = a + total_size [] + 4" by simp
    then show ?thesis by blast
  qed
qed

lemma ap_fresh:
  assumes "tiles m 0 e (xs @ t # ys)"
  shows "total_size xs + 4 \<notin> allocated_ptrs 0 xs"
    and "total_size xs + 4 \<notin> allocated_ptrs (total_size xs + \<bar>t\<bar>) ys"
proof -
  from assms have pre: "tiles m 0 (total_size xs) xs"
    and suf: "tiles m (total_size xs + \<bar>t\<bar>) e ys" and t8: "8 \<le> \<bar>t\<bar>"
    by (auto simp: tiles_append)
  show "total_size xs + 4 \<notin> allocated_ptrs 0 xs"
    using ap_bounds[OF pre, of "total_size xs + 4"] by auto
  show "total_size xs + 4 \<notin> allocated_ptrs (total_size xs + \<bar>t\<bar>) ys"
    using ap_bounds[OF suf, of "total_size xs + 4"] t8 by auto
qed

lemma ap_alloc:
  assumes "tiles m 0 e (xs @ t # ys)" "0 < t" "u < 0" "zs = [u] \<or> (\<exists>r. zs = [u, r] \<and> 0 < r)"
    and "total_size zs = t"
  shows "allocated_ptrs 0 (xs @ zs @ ys) = insert (total_size xs + 4) (allocated_ptrs 0 (xs @ t # ys))"
  using assms(2-) by (auto simp: ap_append)

lemma ap_coalesce:
  assumes t: "tiles m 0 e (xs @ t # ys)" and neg: "t < 0"
  shows "allocated_ptrs 0 (coalesce xs t ys) = allocated_ptrs 0 (xs @ t # ys) - {total_size xs + 4}"
proof -
  define xs' where "xs' = (if free_left xs then butlast xs else xs)"
  define l where "l = (if free_left xs then last xs else 0)"
  define ys' where "ys' = (if free_right ys then tl ys else ys)"
  define r where "r = (if free_right ys then hd ys else 0)"
  define S where "S = l + \<bar>t\<bar> + r"
  have co: "coalesce xs t ys = xs' @ [S] @ ys'"
    by (simp add: coalesce_def xs'_def l_def ys'_def r_def S_def)
  have lx: "allocated_ptrs 0 xs' = allocated_ptrs 0 xs \<and> total_size xs' + l = total_size xs"
  proof (cases "free_left xs")
    case True
    then obtain xs0 a where "xs = xs0 @ [a]" "0 < a"
      by (cases xs rule: rev_cases) (auto simp: free_left_def)
    with True show ?thesis by (simp add: ap_append xs'_def l_def)
  next
    case False
    then show ?thesis by (simp add: xs'_def l_def)
  qed
  have ry: "allocated_ptrs (total_size xs + \<bar>t\<bar> + r) ys' = allocated_ptrs (total_size xs + \<bar>t\<bar>) ys"
  proof (cases "free_right ys")
    case True
    then obtain b ys0 where "ys = b # ys0" "0 < b" by (cases ys) (auto simp: free_right_def)
    with True show ?thesis by (simp add: ys'_def r_def)
  next
    case False
    then show ?thesis by (simp add: ys'_def r_def)
  qed
  have pos: "0 \<le> l" "0 \<le> r" by (auto simp: l_def r_def free_left_def free_right_def)
  then have Spos: "0 < S" using neg by (simp add: S_def)
  have e1: "total_size xs' + \<bar>S\<bar> = total_size xs + \<bar>t\<bar> + r"
    using lx Spos by (simp add: S_def)
  have "allocated_ptrs 0 (xs' @ [S] @ ys')
      = allocated_ptrs 0 xs' \<union> allocated_ptrs (total_size xs' + \<bar>S\<bar>) ys'"
    using Spos by (simp add: ap_append)
  also have "\<dots> = allocated_ptrs 0 xs \<union> allocated_ptrs (total_size xs + \<bar>t\<bar>) ys"
    by (simp only: e1 ry lx)
  finally have "allocated_ptrs 0 (coalesce xs t ys)
      = allocated_ptrs 0 xs \<union> allocated_ptrs (total_size xs + \<bar>t\<bar>) ys"
    by (simp only: co)
  moreover have "allocated_ptrs 0 (xs @ t # ys)
      = allocated_ptrs 0 xs \<union> {total_size xs + 4} \<union> allocated_ptrs (total_size xs + \<bar>t\<bar>) ys"
    using neg by (simp add: ap_append)
  ultimately show ?thesis using ap_fresh[OF t] by auto
qed

section \<open>The outcome of one call\<close>

lemma naf_alloc:
  assumes "no_adjacent_free (xs @ t # ys)" "0 < t" "u < 0"
  shows "no_adjacent_free (xs @ [u] @ ys)" "no_adjacent_free (xs @ [u, r] @ ys)"
proof -
  from assms have a: "no_adjacent_free xs" "no_adjacent_free ys" "ys = [] \<or> \<not> hd ys > 0"
    by (auto simp: naf_append naf_Cons)
  show "no_adjacent_free (xs @ [u] @ ys)"
    using a assms(3) by (auto simp: naf_append naf_Cons)
  show "no_adjacent_free (xs @ [u, r] @ ys)"
    using a assms(3) by (auto simp: naf_append naf_Cons)
qed

lemma naf_coalesce:
  assumes "no_adjacent_free (xs @ t # ys)"
  shows "no_adjacent_free (coalesce xs t ys)"
proof -
  define xs' where "xs' = (if free_left xs then butlast xs else xs)"
  define ys' where "ys' = (if free_right ys then tl ys else ys)"
  define S where "S = (if free_left xs then last xs else 0) + \<bar>t\<bar> + (if free_right ys then hd ys else 0)"
  have co: "coalesce xs t ys = xs' @ [S] @ ys'"
    by (simp add: coalesce_def xs'_def ys'_def S_def)
  from assms have a: "no_adjacent_free xs" "no_adjacent_free ys"
    by (auto simp: naf_append naf_Cons)
  have l: "no_adjacent_free xs' \<and> (xs' = [] \<or> \<not> last xs' > 0)"
  proof (cases "free_left xs")
    case True
    then obtain xs0 a where "xs = xs0 @ [a]" "0 < a"
      by (cases xs rule: rev_cases) (auto simp: free_left_def)
    with True a(1) show ?thesis by (auto simp: xs'_def naf_append)
  next
    case False
    with a(1) show ?thesis by (auto simp: xs'_def free_left_def)
  qed
  have r: "no_adjacent_free ys' \<and> (ys' = [] \<or> \<not> hd ys' > 0)"
  proof (cases "free_right ys")
    case True
    then obtain b ys0 where "ys = b # ys0" "0 < b"
      by (cases ys) (auto simp: free_right_def)
    with True a(2) show ?thesis by (auto simp: ys'_def naf_Cons)
  next
    case False
    with a(2) show ?thesis by (auto simp: ys'_def free_right_def)
  qed
  show ?thesis unfolding co using l r by (auto simp: naf_append naf_Cons)
qed

lemma split_footprint:
  assumes "store_int (store_int (store_int (store_int m
                        h (- (sz + 8))) (h + sz + 4) (- (sz + 8)))
                        (h + sz + 8) (t - (sz + 8))) (h + t - 4) (t - (sz + 8)) x \<noteq> m x"
  shows "x \<in> {h ..< h + 4} \<union> {h + t - 4 ..< h + t} \<union> {h + sz + 4 ..< h + sz + 8} \<union> {h + sz + 8 ..< h + sz + 12}"
proof (rule ccontr)
  assume "\<not> ?thesis"
  then have "x < h \<or> h + 4 \<le> x" "x < h + sz + 4 \<or> h + sz + 4 + 4 \<le> x"
    "x < h + sz + 8 \<or> h + sz + 8 + 4 \<le> x" "x < h + t - 4 \<or> h + t - 4 + 4 \<le> x"
    by auto
  then have "store_int (store_int (store_int (store_int m
                        h (- (sz + 8))) (h + sz + 4) (- (sz + 8)))
                        (h + sz + 8) (t - (sz + 8))) (h + t - 4) (t - (sz + 8)) x = m x"
    by (simp only: store_frame)
  with assms show False by simp
qed

lemma myalloc_outcome:
  assumes ar: "arena s ts" and sz: "0 < sz" and szm: "sz \<le> INT_MAX"
  shows "(\<not> (\<exists>t \<in> set ts. candidate sz t) \<and>
          myalloc s sz = Some (None, s\<lparr>stderr := stderr s @ [Cannot_service sz]\<rparr>)) \<or>
         (\<exists>xs t ys m'. ts = xs @ t # ys \<and> candidate sz t
             \<and> (\<forall>u \<in> set xs. candidate sz u \<longrightarrow> \<bar>t\<bar> < \<bar>u\<bar>)
             \<and> (\<forall>u \<in> set ys. candidate sz u \<longrightarrow> \<bar>t\<bar> \<le> \<bar>u\<bar>)
             \<and> best_fit_block (mem s) (end_ptr s) sz = Some (Some (total_size xs))
             \<and> myalloc s sz = Some (Some (total_size xs + 4), s\<lparr>mem := m'\<rparr>)
             \<and> arena (s\<lparr>mem := m'\<rparr>)
                  (xs @ (if sz + 16 \<le> t then [- (sz + 8), t - (sz + 8)] else [- t]) @ ys)
             \<and> (\<forall>x. m' x \<noteq> mem s x \<longrightarrow> x \<in> alloc_footprint (total_size xs) sz t))"
proof -
  from ar have t: "tiles (mem s) 0 (end_ptr s) ts" "ts \<noteq> []"
    by (auto simp: arena_def)
  from best_fit_block_tiles[OF t, of sz]
  consider (fail) "\<not> (\<exists>t \<in> set ts. candidate sz t)" "best_fit_block (mem s) (end_ptr s) sz = Some None"
    | (ok) xs t ys where "ts = xs @ t # ys"
        "best_fit_block (mem s) (end_ptr s) sz = Some (Some (total_size xs))" "candidate sz t"
        "\<forall>u \<in> set xs. candidate sz u \<longrightarrow> \<bar>t\<bar> < \<bar>u\<bar>" "\<forall>u \<in> set ys. candidate sz u \<longrightarrow> \<bar>t\<bar> \<le> \<bar>u\<bar>"
    by blast
  then show ?thesis
  proof cases
    case fail
    then show ?thesis using myalloc_fail[of s sz] by blast
  next
    case ok
    define m' where "m' = (if sz + 16 \<le> t
                      then store_int (store_int (store_int (store_int (mem s)
                             (total_size xs) (- (sz + 8))) (total_size xs + sz + 4) (- (sz + 8)))
                             (total_size xs + sz + 8) (t - (sz + 8))) (total_size xs + t - 4) (t - (sz + 8))
                      else store_int (store_int (mem s) (total_size xs) (- t))
                             (total_size xs + t - 4) (- t))"
    have ar': "arena s (xs @ t # ys)" using ar ok(1) by simp
    have 1: "myalloc s sz = Some (Some (total_size xs + 4), s\<lparr>mem := m'\<rparr>)"
      unfolding m'_def by (rule myalloc_success[OF ar' ok(2,3) sz szm])
    have 2: "arena (s\<lparr>mem := m'\<rparr>)
                  (xs @ (if sz + 16 \<le> t then [- (sz + 8), t - (sz + 8)] else [- t]) @ ys)"
      unfolding m'_def by (rule myalloc_success_arena[OF ar' ok(3) sz])
    have 3: "x \<in> alloc_footprint (total_size xs) sz t" if "m' x \<noteq> mem s x" for x
    proof (cases "sz + 16 \<le> t")
      case True
      with that show ?thesis
        using split_footprint[of "mem s" "total_size xs" sz t x]
        by (simp add: m'_def alloc_footprint_def)
    next
      case False
      with that show ?thesis
        using block_footprint[of "mem s" "total_size xs" "- t" "total_size xs + t - 4" x]
        by (auto simp: m'_def alloc_footprint_def)
    qed
    show ?thesis
      using ok(1,2,3,4,5) 1 2 3 by blast
  qed
qed

lemma myfree_outcome:
  assumes ar: "arena s ts" and p: "p \<in> allocated_ptrs 0 ts"
  shows "\<exists>xs t ys m'. ts = xs @ t # ys \<and> t < 0 \<and> p = total_size xs + 4
           \<and> myfree s p = Some (s\<lparr>mem := m'\<rparr>)
           \<and> arena (s\<lparr>mem := m'\<rparr>) (coalesce xs t ys)
           \<and> (\<forall>x. m' x \<noteq> mem s x \<longrightarrow> x \<in> free_footprint xs t ys)"
proof -
  from ap_split[OF p] obtain xs t ys where
    s: "ts = xs @ t # ys" "t < 0" "p = total_size xs + 4" by auto
  from ar have t: "tiles (mem s) 0 (end_ptr s) (xs @ t # ys)" and e: "end_ptr s < 2147483648"
    by (auto simp: arena_def s(1))
  from myfree_layout[OF t s(2) e] obtain m' where
    m': "myfree s (total_size xs + 4) = Some (s\<lparr>mem := m'\<rparr>)"
      "tiles m' 0 (end_ptr s) (coalesce xs t ys)"
      "\<forall>x. m' x \<noteq> mem s x \<longrightarrow> x \<in> free_footprint xs t ys" by blast
  have "arena (s\<lparr>mem := m'\<rparr>) (coalesce xs t ys)"
    using ar m'(2) by (auto simp: arena_def)
  then show ?thesis using s m' by blast
qed

section \<open>The traversal on a layout\<close>

lemma visit_tiles:
  "tiles (mem s) a (end_ptr s) ts \<Longrightarrow> ts \<noteq> [] \<Longrightarrow>
   visit s seen (Some a) = Some (seen @ starts a ts)"
proof (induction ts arbitrary: a seen)
  case Nil
  then show ?case by simp
next
  case (Cons t ts)
  from Cons.prems(1) have rest: "tiles (mem s) (a + \<bar>t\<bar>) (end_ptr s) ts" by simp
  have nxt: "get_next_header (mem s) (end_ptr s) a = (if ts = [] then None else Some (a + \<bar>t\<bar>))"
    using Cons.prems(1) by (rule get_next_header_tiles)
  have step: "visit s seen (Some a) = visit s (seen @ [a]) (get_next_header (mem s) (end_ptr s) a)"
    by (subst visit.simps) simp
  show ?case
  proof (cases "ts = []")
    case True
    then show ?thesis using step nxt by (simp add: visit.simps)
  next
    case False
    from Cons.IH[OF rest False, of "seen @ [a]"] show ?thesis
      using step nxt False by simp
  qed
qed

lemma block_headers_arena:
  assumes "arena s ts"
  shows "block_headers s = Some (starts 0 ts)"
proof -
  from assms have t: "tiles (mem s) 0 (end_ptr s) ts" "ts \<noteq> []"
    by (auto simp: arena_def)
  from visit_tiles[OF t, of "[]"] show ?thesis by (simp add: block_headers_def)
qed

lemma map_load_starts: "tiles m a e ts \<Longrightarrow> map (load_int m) (starts a ts) = ts"
  by (induction ts arbitrary: a) auto

lemma footer_starts:
  "tiles m a e ts \<Longrightarrow> h \<in> set (starts a ts) \<Longrightarrow> load_int m (get_footer m h) = load_int m h"
  by (induction ts arbitrary: a) (auto simp: get_footer_def sizeof_int_def)

section \<open>What every session preserves\<close>

lemma arena_stderr: "arena (s\<lparr>stderr := d\<rparr>) ts = arena s ts"
  by (simp add: arena_def)

lemma run_call_inv:
  assumes ar: "arena s ts" and naf: "no_adjacent_free ts" and live: "live = allocated_ptrs 0 ts"
    and run: "run_call (s, live) c = Some (s', live')"
  shows "\<exists>ts'. arena s' ts' \<and> MEMORY_SIZE s' = MEMORY_SIZE s \<and> no_adjacent_free ts' \<and>
           live' = allocated_ptrs 0 ts'"
proof (cases c)
  case (Allocate sz)
  with run have sz: "0 < sz" and szm: "sz \<le> INT_MAX" by (simp_all split: if_splits)
  from myalloc_outcome[OF ar sz szm] show ?thesis
  proof (elim disjE conjE exE)
    assume "myalloc s sz = Some (None, s\<lparr>stderr := stderr s @ [Cannot_service sz]\<rparr>)"
    with run Allocate sz szm have "s' = s\<lparr>stderr := stderr s @ [Cannot_service sz]\<rparr>" "live' = live"
      by simp_all
    then show ?thesis using ar naf live by (auto simp: arena_stderr)
  next
    fix xs t ys m'
    assume a: "ts = xs @ t # ys" "candidate sz t"
      "myalloc s sz = Some (Some (total_size xs + 4), s\<lparr>mem := m'\<rparr>)"
      "arena (s\<lparr>mem := m'\<rparr>) (xs @ (if sz + 16 \<le> t then [- (sz + 8), t - (sz + 8)] else [- t]) @ ys)"
    from a(3) run Allocate sz szm have r: "s' = s\<lparr>mem := m'\<rparr>" "live' = insert (total_size xs + 4) live"
      by simp_all
    from a(2) have el: "0 < t" by (rule candidate_pos)
    from ar a(1) have t: "tiles (mem s) 0 (end_ptr s) (xs @ t # ys)" by (auto simp: arena_def)
    let ?zs = "if sz + 16 \<le> t then [- (sz + 8), t - (sz + 8)] else [- t]"
    have n: "no_adjacent_free (xs @ ?zs @ ys)"
      using naf_alloc(2)[OF naf[unfolded a(1)] el, where u = "- (sz + 8)" and r = "t - (sz + 8)"]
        naf_alloc(1)[OF naf[unfolded a(1)] el, where u = "- t"] sz el by auto
    have "allocated_ptrs 0 (xs @ ?zs @ ys) = insert (total_size xs + 4) (allocated_ptrs 0 (xs @ t # ys))"
    proof (cases "sz + 16 \<le> t")
      case True
      then show ?thesis
        using sz el ap_alloc[OF t el, where u = "- (sz + 8)" and zs = "[- (sz + 8), t - (sz + 8)]"]
        by simp
    next
      case False
      then show ?thesis
        using sz el ap_alloc[OF t el, where u = "- t" and zs = "[- t]"] by simp
    qed
    then have "live' = allocated_ptrs 0 (xs @ ?zs @ ys)" using r(2) live a(1) by simp
    then show ?thesis using a(4) n r(1) by auto
  qed
next
  case (Free p)
  with run have p: "p \<in> live" by (simp split: if_splits)
  from myfree_outcome[OF ar p[unfolded live]] obtain xs t ys m' where
    a: "ts = xs @ t # ys" "t < 0" "p = total_size xs + 4" "myfree s p = Some (s\<lparr>mem := m'\<rparr>)"
      "arena (s\<lparr>mem := m'\<rparr>) (coalesce xs t ys)" by blast
  from a(4) run Free p have r: "s' = s\<lparr>mem := m'\<rparr>" "live' = live - {p}" by auto
  from ar a(1) have t: "tiles (mem s) 0 (end_ptr s) (xs @ t # ys)" by (auto simp: arena_def)
  have "no_adjacent_free (coalesce xs t ys)" using naf a(1) by (auto intro: naf_coalesce)
  moreover have "live' = allocated_ptrs 0 (coalesce xs t ys)"
    using ap_coalesce[OF t a(2)] r(2) live a(1,3) by simp
  ultimately show ?thesis using a(5) r(1) by auto
qed

lemma run_calls_inv:
  assumes "arena s ts" "no_adjacent_free ts" "live = allocated_ptrs 0 ts"
    and "run_calls (s, live) cs = Some (s', live')"
  shows "\<exists>ts'. arena s' ts' \<and> MEMORY_SIZE s' = MEMORY_SIZE s \<and> no_adjacent_free ts' \<and>
           live' = allocated_ptrs 0 ts'"
  using assms
proof (induction cs arbitrary: s ts live)
  case Nil
  then show ?case by auto
next
  case (Cons c cs)
  from Cons.prems(4) obtain s1 live1 where
    1: "run_call (s, live) c = Some (s1, live1)" and 2: "run_calls (s1, live1) cs = Some (s', live')"
    by (auto split: option.splits)
  from run_call_inv[OF Cons.prems(1,2,3) 1] obtain ts1 where
    i: "arena s1 ts1" "MEMORY_SIZE s1 = MEMORY_SIZE s" "no_adjacent_free ts1"
       "live1 = allocated_ptrs 0 ts1" by blast
  from Cons.IH[OF i(1,3,4) 2] i(2) show ?case by auto
qed

lemma session_inv:
  assumes "8 \<le> c" "c < 2147483648" "session c m0 calls = Some (s, live)"
  shows "\<exists>ts. arena s ts \<and> MEMORY_SIZE s = c \<and> no_adjacent_free ts \<and> live = allocated_ptrs 0 ts"
proof -
  from assms(3) obtain s0 where
    0: "init_myalloc c (Some m0) = Inr s0" and 1: "run_calls (s0, {}) calls = Some (s, live)"
    by (auto simp: session_def split: sum.splits)
  have a: "arena s0 [c]" by (rule init_arena[OF assms(1,2) 0])
  have m: "MEMORY_SIZE s0 = c" using 0 by (auto simp: init_myalloc_def Let_def)
  have "{} = allocated_ptrs 0 [c]" using assms(1) by simp
  from run_calls_inv[OF a _ this 1] m show ?thesis by simp
qed

section \<open>Running the code on concrete pools\<close>

lemma best_fit_loop_None: "best_fit_loop m e sz r None = Some r"
  by (subst best_fit_loop.simps) simp

lemma best_fit_loop_Some:
  "best_fit_loop m e sz r (Some h) =
     best_fit_loop m e sz
       (if \<bar>load_int m h\<bar> \<ge> to_int (sz + 8) \<and> load_int m h > 0
        then (case r of
                None \<Rightarrow> Some h
              | Some r' \<Rightarrow> if \<bar>load_int m h\<bar> < \<bar>load_int m r'\<bar> then Some h else r)
        else r)
       (get_next_header m e h)"
  by (subst best_fit_loop.simps) simp

lemma visit_None: "visit s seen None = Some seen"
  by (subst visit.simps) simp

lemma visit_Some:
  "visit s seen (Some h) = visit s (seen @ [h]) (get_next_header (mem s) (end_ptr s) h)"
  by (subst visit.simps) simp

lemma to_int_numeral:
  "to_int (numeral k) =
     (let u = numeral k mod 4294967296 in if u < 2147483648 then u else u - 4294967296)"
  "to_int (- numeral k) =
     (let u = (- numeral k) mod 4294967296 in if u < 2147483648 then u else u - 4294967296)"
  by (simp_all add: to_int_def)

lemmas eval_simps = session_def init_myalloc_def myalloc_def myfree_def best_fit_block_def
  best_fit_loop_None best_fit_loop_Some get_next_header_def get_footer_def get_header_def
  back_coalesce_def fwd_coalesce_def sizeof_int_def to_size_t_def to_int_numeral Let_def
  load_store_same load_store_other arena_def pool_after_def fresh_pool_def
  block_headers_def visit_None visit_Some insert_Diff_if INT_MAX_def

section \<open>Best fit\<close>

text \<open>
  Claim C1. A call \<^verbatim>\<open>myalloc(size)\<close> with \<open>size > 0\<close> treats a block as a candidate
  exactly when its tag is positive and its size is at least \<open>size + 2 * sizeof(int)\<close>.
  When the pool has a candidate, the search returns the header of a candidate \<open>t\<close>
  such that every candidate at a lower address is strictly larger and every candidate
  at a higher address is at least as large: the smallest candidate, and the first of
  them among equals. \<^verbatim>\<open>myalloc\<close> then returns that header plus one word. A pool
  with such a block is one on which the sum that the code computes in \<^verbatim>\<open>int\<close> is the
  sum in the integers, so the test of the code (\<open>candidate\<close>) is the one stated.
\<close>

theorem best_fit_selection:
  assumes "arena s ts" and "0 < sz" and "\<exists>t \<in> set ts. eligible sz t"
  shows "(\<forall>u. eligible sz u \<longleftrightarrow> 0 < u \<and> sz + 2 * sizeof_int \<le> \<bar>u\<bar>) \<and>
         (\<forall>u. candidate sz u \<longleftrightarrow> eligible sz u) \<and>
         (\<exists>xs t ys s'. ts = xs @ t # ys \<and> eligible sz t
             \<and> (\<forall>u \<in> set xs. eligible sz u \<longrightarrow> \<bar>t\<bar> < \<bar>u\<bar>)
             \<and> (\<forall>u \<in> set ys. eligible sz u \<longrightarrow> \<bar>t\<bar> \<le> \<bar>u\<bar>)
             \<and> best_fit_block (mem s) (end_ptr s) sz = Some (Some (total_size xs))
             \<and> myalloc s sz = Some (Some (total_size xs + sizeof_int), s'))"
proof (intro conjI)
  show "\<forall>u. eligible sz u \<longleftrightarrow> 0 < u \<and> sz + 2 * sizeof_int \<le> \<bar>u\<bar>"
    by (auto simp: eligible_def sizeof_int_def)
  from assms(3) obtain u where u: "u \<in> set ts" "eligible sz u" by blast
  from assms(1) have "tiles (mem s) 0 (end_ptr s) ts" by (auto simp: arena_def)
  from tiles_tag_range[OF this u(1)] u(2) have ov: "sz + 8 \<le> INT_MAX"
    by (auto simp: eligible_def INT_MAX_def)
  then have szm: "sz \<le> INT_MAX" by simp
  have ce: "candidate sz u = eligible sz u" for u
    by (rule candidate_eligible[OF assms(2) ov])
  then show "\<forall>u. candidate sz u \<longleftrightarrow> eligible sz u" by simp
  from myalloc_outcome[OF assms(1,2) szm] assms(3)
  obtain xs t ys m' where "ts = xs @ t # ys" "eligible sz t"
    "\<forall>u \<in> set xs. eligible sz u \<longrightarrow> \<bar>t\<bar> < \<bar>u\<bar>" "\<forall>u \<in> set ys. eligible sz u \<longrightarrow> \<bar>t\<bar> \<le> \<bar>u\<bar>"
    "best_fit_block (mem s) (end_ptr s) sz = Some (Some (total_size xs))"
    "myalloc s sz = Some (Some (total_size xs + 4), s\<lparr>mem := m'\<rparr>)"
    unfolding ce by blast
  then show "\<exists>xs t ys s'. ts = xs @ t # ys \<and> eligible sz t
             \<and> (\<forall>u \<in> set xs. eligible sz u \<longrightarrow> \<bar>t\<bar> < \<bar>u\<bar>)
             \<and> (\<forall>u \<in> set ys. eligible sz u \<longrightarrow> \<bar>t\<bar> \<le> \<bar>u\<bar>)
             \<and> best_fit_block (mem s) (end_ptr s) sz = Some (Some (total_size xs))
             \<and> myalloc s sz = Some (Some (total_size xs + sizeof_int), s')"
    unfolding sizeof_int_def by blast
qed

theorem best_fit_selection_witness:
  "arena (pool_after 208 [Allocate 56, Allocate 8, Free 4]) [64, - 16, 128] \<and> (0::int) < 50 \<and>
   eligible 50 64 \<and> eligible 50 128 \<and> \<not> eligible 50 (- 16) \<and>
   best_fit_block (mem (pool_after 208 [Allocate 56, Allocate 8, Free 4]))
     (end_ptr (pool_after 208 [Allocate 56, Allocate 8, Free 4])) 50 = Some (Some 0)"
proof -
  let ?s = "pool_after 208 [Allocate 56, Allocate 8, Free 4]"
  have a: "arena ?s [64, - 16, 128]" by (simp add: eval_simps cong: let_weak_cong)
  have e: "eligible 50 64" "eligible 50 128" "\<not> eligible 50 (- 16)" by (simp_all add: eligible_def)
  then have ex: "\<exists>t \<in> set [64, - 16, 128]. eligible 50 t" by simp
  from best_fit_selection[OF a _ ex] obtain xs t ys where
    s: "[64, - 16, 128] = xs @ t # ys" "eligible 50 t" "\<forall>u \<in> set xs. eligible 50 u \<longrightarrow> \<bar>t\<bar> < \<bar>u\<bar>"
      "best_fit_block (mem ?s) (end_ptr ?s) 50 = Some (Some (total_size xs))"
    by auto
  from s(1) have "xs = [] \<and> t = 64 \<or> xs = [64] \<and> t = - 16 \<or> xs = [64, - 16] \<and> t = 128"
    by (auto simp: Cons_eq_append_conv)
  with s(2,3) e have "xs = []" by auto
  with s(4) a e show ?thesis by simp
qed

section \<open>Exhaustion\<close>

text \<open>
  A request of \<open>sz > 0\<close> bytes for which \<open>sz + 2 * sizeof(int)\<close> is an \<^verbatim>\<open>int\<close> and for
  which no block of the pool is eligible fails: \<^verbatim>\<open>myalloc\<close> returns the null pointer,
  and the state it leaves differs from the one it found only in the diagnostic
  appended to the error stream, which names \<open>sz\<close>. No byte of the pool has changed.
\<close>

lemma myalloc_exhausted_in_range:
  assumes "arena s ts" and "0 < sz" and "sz + 2 * sizeof_int \<le> INT_MAX"
    and "\<not> (\<exists>t \<in> set ts. eligible sz t)"
  shows "myalloc s sz = Some (None, s\<lparr>stderr := stderr s @ [Cannot_service sz]\<rparr>)"
proof -
  from assms(1) have t: "tiles (mem s) 0 (end_ptr s) ts" "ts \<noteq> []"
    by (auto simp: arena_def)
  have ov: "sz + 8 \<le> INT_MAX" using assms(3) by (simp add: sizeof_int_def)
  have ce: "candidate sz u = eligible sz u" for u
    by (rule candidate_eligible[OF assms(2) ov])
  from best_fit_block_tiles[OF t, of sz] assms(4)
  have "best_fit_block (mem s) (end_ptr s) sz = Some None" unfolding ce by auto
  then show ?thesis by (rule myalloc_fail)
qed

lemma myalloc_exhausted_example:
  "myalloc (fresh_pool 128) 200 =
     Some (None, (fresh_pool 128)\<lparr>stderr := stderr (fresh_pool 128) @ [Cannot_service 200]\<rparr>)"
proof -
  have a: "arena (fresh_pool 128) [128]"
    by (rule init_arena[OF _ _ init_fresh_pool]) simp_all
  have b: "\<not> (\<exists>t \<in> set [128]. eligible 200 t)" by (simp add: eligible_def)
  have c: "200 + 2 * sizeof_int \<le> INT_MAX" by (simp add: sizeof_int_def INT_MAX_def)
  show ?thesis by (rule myalloc_exhausted_in_range[OF a _ c b]) simp
qed

text \<open>
  A request of a size above \<^verbatim>\<open>INT_MAX - 2 * sizeof(int)\<close> is another matter. No block
  is eligible for it, since no block is that large; but the sum of the search wraps
  around to a negative number, every free block passes the test, and the request
  succeeds as soon as the pool has a free block.
\<close>

lemma myalloc_overflow_succeeds:
  assumes ar: "arena s ts" and ov: "INT_MAX < sz + 2 * sizeof_int" and szm: "sz \<le> INT_MAX"
    and fr: "\<exists>t \<in> set ts. 0 < t"
  shows "\<not> (\<exists>t \<in> set ts. eligible sz t)"
    and "\<exists>p s'. myalloc s sz = Some (Some p, s') \<and> stderr s' = stderr s"
proof -
  from ar have t: "tiles (mem s) 0 (end_ptr s) ts" by (auto simp: arena_def)
  from ov have ov': "INT_MAX < sz + 8" and sz: "0 < sz"
    by (simp_all add: sizeof_int_def INT_MAX_def)
  show "\<not> (\<exists>t \<in> set ts. eligible sz t)"
    using tiles_tag_range[OF t] ov' by (fastforce simp: eligible_def INT_MAX_def)
  have c: "candidate sz u \<longleftrightarrow> 0 < u" for u by (rule candidate_overflow[OF ov' szm])
  from myalloc_outcome[OF ar sz szm] fr
  obtain xs t ys m' where "myalloc s sz = Some (Some (total_size xs + 4), s\<lparr>mem := m'\<rparr>)"
    unfolding c by blast
  then show "\<exists>p s'. myalloc s sz = Some (Some p, s') \<and> stderr s' = stderr s" by simp
qed

text \<open>
  Claim C6. Whenever no block of the pool is eligible for a request of \<open>size > 0\<close>
  bytes, \<^verbatim>\<open>myalloc\<close> is to return the null pointer, to name the size in a diagnostic
  and to leave the pool unchanged. For a size above \<^verbatim>\<open>INT_MAX - 2 * sizeof(int)\<close> the
  code does not. On a fresh pool of 128 bytes no block is eligible for
  \<^verbatim>\<open>myalloc(2147483647)\<close>; the sum \<^verbatim>\<open>size + 8\<close> wraps around to \<open>- 2147483641\<close>, the
  one block of the pool passes the test, and \<^verbatim>\<open>myalloc\<close> negates its header and its
  footer and returns the pointer 4 with nothing written to the error stream.
\<close>

theorem myalloc_exhausted_overflow:
  "arena (fresh_pool 128) [128] \<and> (0::int) < 2147483647 \<and> 2147483647 \<le> INT_MAX \<and>
   \<not> eligible 2147483647 128 \<and>
   to_int (2147483647 + 8) = - 2147483641 \<and> candidate 2147483647 128 \<and>
   best_fit_block (mem (fresh_pool 128)) (end_ptr (fresh_pool 128)) 2147483647 = Some (Some 0) \<and>
   myalloc (fresh_pool 128) 2147483647 = Some (Some 4, pool_after 128 [Allocate 2147483647]) \<and>
   myalloc (fresh_pool 128) 2147483647 \<noteq>
     Some (None, (fresh_pool 128)\<lparr>stderr := stderr (fresh_pool 128) @ [Cannot_service 2147483647]\<rparr>) \<and>
   stderr (pool_after 128 [Allocate 2147483647]) = [] \<and>
   load_int (mem (fresh_pool 128)) 0 = 128 \<and>
   load_int (mem (pool_after 128 [Allocate 2147483647])) 0 = - 128 \<and>
   load_int (mem (pool_after 128 [Allocate 2147483647])) 124 = - 128 \<and>
   arena (pool_after 128 [Allocate 2147483647]) [- 128]"
  by (simp add: eval_simps eligible_def candidate_def cong: let_weak_cong)

section \<open>Splitting\<close>

lemma myalloc_Some_outcome:
  assumes ar: "arena s ts" and sz: "0 < sz" and szm: "sz \<le> INT_MAX"
    and ok: "myalloc s sz = Some (Some p, s')"
  shows "\<exists>xs t ys. ts = xs @ t # ys \<and> candidate sz t \<and> p = total_size xs + 4
           \<and> best_fit_block (mem s) (end_ptr s) sz = Some (Some (total_size xs))
           \<and> MEMORY_SIZE s' = MEMORY_SIZE s \<and> end_ptr s' = end_ptr s \<and> stderr s' = stderr s
           \<and> arena s' (xs @ (if sz + 16 \<le> t then [- (sz + 8), t - (sz + 8)] else [- t]) @ ys)
           \<and> (\<forall>x. mem s' x \<noteq> mem s x \<longrightarrow> x \<in> alloc_footprint (total_size xs) sz t)"
  using myalloc_outcome[OF ar sz szm]
proof (elim disjE conjE exE)
  assume "myalloc s sz = Some (None, s\<lparr>stderr := stderr s @ [Cannot_service sz]\<rparr>)"
  with ok show ?thesis by simp
next
  fix xs t ys m'
  assume o: "ts = xs @ t # ys" "candidate sz t"
      "best_fit_block (mem s) (end_ptr s) sz = Some (Some (total_size xs))"
      "myalloc s sz = Some (Some (total_size xs + 4), s\<lparr>mem := m'\<rparr>)"
      "arena (s\<lparr>mem := m'\<rparr>) (xs @ (if sz + 16 \<le> t then [- (sz + 8), t - (sz + 8)] else [- t]) @ ys)"
      "\<forall>x. m' x \<noteq> mem s x \<longrightarrow> x \<in> alloc_footprint (total_size xs) sz t"
  from o(4) ok have e: "p = total_size xs + 4" "s' = s\<lparr>mem := m'\<rparr>" by simp_all
  show ?thesis
    apply (rule exI[of _ xs], rule exI[of _ t], rule exI[of _ ys])
    using o e by simp
qed

text \<open>
  Claim C2. Let a call \<^verbatim>\<open>myalloc(size)\<close> with \<open>size > 0\<close> succeed on a block whose
  tag is \<open>orig\<close>. The block is split exactly when \<open>orig \<ge> size + 4 * sizeof(int)\<close>:
  then header and footer of the allocated block hold \<open>- (size + 2 * sizeof(int))\<close>, and
  the block that starts right after its footer is free with header and footer
  \<open>orig - (size + 2 * sizeof(int))\<close>. Otherwise the whole block is allocated in place:
  header and footer stay where they were and hold \<open>- orig\<close>. The size is an \<^verbatim>\<open>int\<close>.
  The block was free, and it has \<open>size + 2 * sizeof(int)\<close> bytes or more unless that
  sum is above \<^verbatim>\<open>INT_MAX\<close>; then the block is smaller, and it is allocated in place.
\<close>

theorem split_rule:
  assumes "arena s ts" and "0 < sz" and "sz \<le> INT_MAX" and "myalloc s sz = Some (Some p, s')"
  shows "\<exists>xs orig ys. ts = xs @ orig # ys \<and> p = total_size xs + sizeof_int
           \<and> 0 < orig \<and> (sz + 2 * sizeof_int \<le> INT_MAX \<longrightarrow> sz + 2 * sizeof_int \<le> orig)
           \<and> load_int (mem s) (p - sizeof_int) = orig
           \<and> (if sz + 4 * sizeof_int \<le> orig
                then arena s' (xs @ [- (sz + 2 * sizeof_int), orig - (sz + 2 * sizeof_int)] @ ys)
                  \<and> load_int (mem s') (p - sizeof_int) = - (sz + 2 * sizeof_int)
                  \<and> load_int (mem s') (get_footer (mem s') (p - sizeof_int)) = - (sz + 2 * sizeof_int)
                  \<and> get_footer (mem s') (p - sizeof_int) + sizeof_int = p - sizeof_int + (sz + 2 * sizeof_int)
                  \<and> load_int (mem s') (p - sizeof_int + (sz + 2 * sizeof_int)) = orig - (sz + 2 * sizeof_int)
                  \<and> load_int (mem s') (get_footer (mem s') (p - sizeof_int + (sz + 2 * sizeof_int)))
                      = orig - (sz + 2 * sizeof_int)
                else arena s' (xs @ [- orig] @ ys)
                  \<and> load_int (mem s') (p - sizeof_int) = - orig
                  \<and> get_footer (mem s') (p - sizeof_int) = get_footer (mem s) (p - sizeof_int)
                  \<and> load_int (mem s') (get_footer (mem s') (p - sizeof_int)) = - orig
                  \<and> load_int (mem s) (get_footer (mem s) (p - sizeof_int)) = orig)"
proof -
  from myalloc_Some_outcome[OF assms] obtain xs t ys where
    o: "ts = xs @ t # ys" "candidate sz t" "p = total_size xs + 4"
      "arena s' (xs @ (if sz + 16 \<le> t then [- (sz + 8), t - (sz + 8)] else [- t]) @ ys)"
      "end_ptr s' = end_ptr s"
    by blast
  from o(2) have el: "0 < t" by (rule candidate_pos)
  have el2: "sz + 2 * sizeof_int \<le> INT_MAX \<longrightarrow> sz + 2 * sizeof_int \<le> t"
    using o(2) candidate_eligible[OF assms(2), of t] by (auto simp: sizeof_int_def eligible_def)
  from assms(1) o(1) have t: "tiles (mem s) 0 (end_ptr s) (xs @ t # ys)" by (auto simp: arena_def)
  have l0: "load_int (mem s) (total_size xs) = t" "load_int (mem s) (total_size xs + t - 4) = t"
    using tiles_at(1,2)[OF t] el by simp_all
  show ?thesis
  proof (cases "sz + 16 \<le> t")
    case True
    with o(4) have t': "tiles (mem s') 0 (end_ptr s) (xs @ (- (sz + 8)) # (t - (sz + 8)) # ys)"
      by (auto simp: arena_def o(5))
    then have t'': "tiles (mem s') 0 (end_ptr s) ((xs @ [- (sz + 8)]) @ (t - (sz + 8)) # ys)" by simp
    have l1: "load_int (mem s') (total_size xs) = - (sz + 8)"
      "load_int (mem s') (total_size xs + (sz + 8) - 4) = - (sz + 8)"
      using tiles_at(1,2)[OF t'] assms(2) by simp_all
    have l2: "load_int (mem s') (total_size xs + (sz + 8)) = t - (sz + 8)"
      "load_int (mem s') (total_size xs + (sz + 8) + (t - (sz + 8)) - 4) = t - (sz + 8)"
      using tiles_at(1,2)[OF t''] assms(2) True by (simp_all add: algebra_simps)
    have "arena s' (xs @ [- (sz + 8), t - (sz + 8)] @ ys)" using o(4) True by simp
    then show ?thesis
      using o(1,3) el el2 l0 l1 l2 True assms(2)
      by (intro exI[of _ xs] exI[of _ t] exI[of _ ys])
         (simp add: sizeof_int_def get_footer_def)
  next
    case False
    with o(4) have t': "tiles (mem s') 0 (end_ptr s) (xs @ (- t) # ys)"
      by (auto simp: arena_def o(5))
    have l1: "load_int (mem s') (total_size xs) = - t"
      "load_int (mem s') (total_size xs + t - 4) = - t"
      using tiles_at(1,2)[OF t'] el by simp_all
    have "arena s' (xs @ [- t] @ ys)" using o(4) False by simp
    then show ?thesis
      using o(1,3) el el2 l0 l1 False
      by (intro exI[of _ xs] exI[of _ t] exI[of _ ys])
         (simp add: sizeof_int_def get_footer_def)
  qed
qed

theorem split_rule_witness:
  "arena (fresh_pool 128) [128] \<and>
   myalloc (fresh_pool 128) 112 = Some (Some 4, pool_after 128 [Allocate 112]) \<and>
   arena (pool_after 128 [Allocate 112]) [- 120, 8] \<and>
   myalloc (fresh_pool 128) 116 = Some (Some 4, pool_after 128 [Allocate 116]) \<and>
   arena (pool_after 128 [Allocate 116]) [- 128]"
proof -
  have a: "arena (fresh_pool 128) [128]" by (simp add: eval_simps cong: let_weak_cong)
  have m1: "myalloc (fresh_pool 128) 112 = Some (Some 4, pool_after 128 [Allocate 112])"
    by (simp add: eval_simps cong: let_weak_cong)
  have m2: "myalloc (fresh_pool 128) 116 = Some (Some 4, pool_after 128 [Allocate 116])"
    by (simp add: eval_simps cong: let_weak_cong)
  from split_rule[OF a _ _ m1] have "arena (pool_after 128 [Allocate 112]) [- 120, 8]"
    by (auto simp: Cons_eq_append_conv sizeof_int_def INT_MAX_def)
  moreover from split_rule[OF a _ _ m2] have "arena (pool_after 128 [Allocate 116]) [- 128]"
    by (auto simp: Cons_eq_append_conv sizeof_int_def INT_MAX_def)
  ultimately show ?thesis using a m1 m2 by simp
qed

section \<open>The returned pointer\<close>

lemma starts_append: "starts a (xs @ ys) = starts a xs @ starts (a + total_size xs) ys"
  by (induction xs arbitrary: a) (auto simp: add.assoc)

text \<open>
  The pointer that a successful \<^verbatim>\<open>myalloc(size)\<close> returns is the header of the block
  that the search chose plus one word. That header is the header of a block of the
  pool after the call, and the block is allocated (its tag is negative). When
  \<open>size + 2 * sizeof(int)\<close> is an \<^verbatim>\<open>int\<close>, at least \<open>size\<close> bytes lie between the
  returned pointer and the block's footer.
\<close>

lemma returned_pointer:
  assumes "arena s ts" and "0 < sz" and "sz \<le> INT_MAX" and "myalloc s sz = Some (Some p, s')"
  shows "best_fit_block (mem s) (end_ptr s) sz = Some (Some (p - sizeof_int)) \<and>
         (\<exists>hs. block_headers s' = Some hs \<and> p - sizeof_int \<in> set hs) \<and>
         load_int (mem s') (p - sizeof_int) < 0 \<and>
         (sz + 2 * sizeof_int \<le> INT_MAX \<longrightarrow> p + sz \<le> get_footer (mem s') (p - sizeof_int))"
proof -
  from myalloc_Some_outcome[OF assms] obtain xs t ys where
    o: "ts = xs @ t # ys" "candidate sz t" "p = total_size xs + 4"
      "best_fit_block (mem s) (end_ptr s) sz = Some (Some (total_size xs))"
      "arena s' (xs @ (if sz + 16 \<le> t then [- (sz + 8), t - (sz + 8)] else [- t]) @ ys)"
      "end_ptr s' = end_ptr s"
    by blast
  from o(2) have el: "0 < t" by (rule candidate_pos)
  have el2: "sz + 8 \<le> INT_MAX \<longrightarrow> sz + 8 \<le> t"
    using o(2) candidate_eligible[OF assms(2), of t] by (auto simp: eligible_def)
  define u where "u = (if sz + 16 \<le> t then - (sz + 8) else - t)"
  define zs where "zs = (if sz + 16 \<le> t then (t - (sz + 8)) # ys else ys)"
  have ar': "arena s' (xs @ u # zs)" using o(5) by (cases "sz + 16 \<le> t") (simp_all add: u_def zs_def)
  then have t': "tiles (mem s') 0 (end_ptr s') (xs @ u # zs)" by (auto simp: arena_def)
  have u: "u < 0" "sz + 8 \<le> INT_MAX \<longrightarrow> sz + 8 \<le> \<bar>u\<bar>" using el el2 assms(2) by (auto simp: u_def)
  have l: "load_int (mem s') (total_size xs) = u" using tiles_at(1)[OF t'] by simp
  have "block_headers s' = Some (starts 0 (xs @ u # zs))" by (rule block_headers_arena[OF ar'])
  moreover have "total_size xs \<in> set (starts 0 (xs @ u # zs))" by (simp add: starts_append)
  ultimately show ?thesis
    using o(3,4) l u by (auto simp: sizeof_int_def get_footer_def)
qed

text \<open>
  Claim C8. The pointer that a successful \<^verbatim>\<open>myalloc(size)\<close> returns is to be the
  header of the chosen block plus one word, with at least \<open>size\<close> bytes between it and
  the footer of the block. For a size above \<^verbatim>\<open>INT_MAX - 2 * sizeof(int)\<close> the block
  is too small. On a fresh pool of 128 bytes \<^verbatim>\<open>myalloc(2147483647)\<close> succeeds, since
  the sum \<^verbatim>\<open>size + 8\<close> of the search wraps around: it returns the pointer 4 into the
  one block of the pool, whose footer is at 124. The block has 120 bytes of payload.
\<close>

theorem payload_pointer_overflow:
  "arena (fresh_pool 128) [128] \<and> (0::int) < 2147483647 \<and> 2147483647 \<le> INT_MAX \<and>
   myalloc (fresh_pool 128) 2147483647 = Some (Some 4, pool_after 128 [Allocate 2147483647]) \<and>
   best_fit_block (mem (fresh_pool 128)) (end_ptr (fresh_pool 128)) 2147483647
     = Some (Some (4 - sizeof_int)) \<and>
   block_headers (pool_after 128 [Allocate 2147483647]) = Some [0] \<and>
   load_int (mem (pool_after 128 [Allocate 2147483647])) (4 - sizeof_int) = - 128 \<and>
   get_footer (mem (pool_after 128 [Allocate 2147483647])) (4 - sizeof_int) = 124 \<and>
   \<not> 4 + 2147483647 \<le> get_footer (mem (pool_after 128 [Allocate 2147483647])) (4 - sizeof_int)"
  by (simp add: eval_simps cong: let_weak_cong)

section \<open>Coalescing leaves no free neighbours\<close>

lemma session_snoc:
  "session c m0 (calls @ [x]) =
     (case session c m0 calls of None \<Rightarrow> None | Some st \<Rightarrow> run_call st x)"
proof -
  have "run_calls st (calls @ [x]) = (case run_calls st calls of None \<Rightarrow> None | Some st' \<Rightarrow> run_call st' x)"
    for st
    by (induction calls arbitrary: st) (auto split: option.splits)
  then show ?thesis by (simp add: session_def split: sum.splits)
qed

lemma arena_unique: "arena s ts \<Longrightarrow> arena s us \<Longrightarrow> ts = us"
  unfolding arena_def by (elim conjE) (rule tiles_unique)

text \<open>
  Claim C3. After any session of calls that respect the obligations of the client, no two
  blocks that are neighbours in the pool are both free. Moreover every pointer \<open>p\<close>
  that is live then can be freed: \<^verbatim>\<open>myfree(p)\<close> returns, the block of \<open>p\<close> and those of
  its two neighbours that were free have become one free block (the layout
  \<open>coalesce xs t ys\<close>), and again no two neighbours are both free.
\<close>

theorem no_adjacent_free_blocks:
  assumes "8 \<le> c" and "c < 2147483648" and "session c m0 calls = Some (s, live)"
  shows "(\<exists>ts. arena s ts \<and> no_adjacent_free ts) \<and>
         (\<forall>p \<in> live. \<exists>xs t ys s'.
             arena s (xs @ t # ys) \<and> t < 0 \<and> p = total_size xs + sizeof_int \<and>
             myfree s p = Some s' \<and>
             session c m0 (calls @ [Free p]) = Some (s', live - {p}) \<and>
             arena s' (coalesce xs t ys) \<and> no_adjacent_free (coalesce xs t ys))"
proof -
  from session_inv[OF assms] obtain ts where
    i: "arena s ts" "no_adjacent_free ts" "live = allocated_ptrs 0 ts" by blast
  have "\<exists>xs t ys s'.
             arena s (xs @ t # ys) \<and> t < 0 \<and> p = total_size xs + sizeof_int \<and>
             myfree s p = Some s' \<and>
             session c m0 (calls @ [Free p]) = Some (s', live - {p}) \<and>
             arena s' (coalesce xs t ys) \<and> no_adjacent_free (coalesce xs t ys)"
    if p: "p \<in> live" for p
  proof -
    from myfree_outcome[OF i(1) p[unfolded i(3)]] obtain xs t ys m' where
      o: "ts = xs @ t # ys" "t < 0" "p = total_size xs + 4" "myfree s p = Some (s\<lparr>mem := m'\<rparr>)"
        "arena (s\<lparr>mem := m'\<rparr>) (coalesce xs t ys)" by blast
    have "session c m0 (calls @ [Free p]) = Some (s\<lparr>mem := m'\<rparr>, live - {p})"
      using assms(3) p o(4) by (simp add: session_snoc)
    moreover have "no_adjacent_free (coalesce xs t ys)"
      using i(2) o(1) by (auto intro: naf_coalesce)
    ultimately show ?thesis
      using i(1) o by (auto simp: sizeof_int_def)
  qed
  with i(1,2) show ?thesis by blast
qed

theorem no_adjacent_free_blocks_witness:
  "(8::int) \<le> 208 \<and> (208::int) < 2147483648 \<and>
   session 208 zero_memory [Allocate 56, Allocate 8, Free 4]
     = Some (pool_after 208 [Allocate 56, Allocate 8, Free 4], {68}) \<and>
   arena (pool_after 208 [Allocate 56, Allocate 8, Free 4]) [64, - 16, 128] \<and>
   no_adjacent_free [64, - 16, 128] \<and>
   session 208 zero_memory ([Allocate 56, Allocate 8, Free 4] @ [Free 68])
     = Some (pool_after 208 [Allocate 56, Allocate 8, Free 4, Free 68], {}) \<and>
   arena (pool_after 208 [Allocate 56, Allocate 8, Free 4, Free 68]) [208] \<and>
   coalesce [64] (- 16) [128] = [208]"
proof -
  let ?cs = "[Allocate 56, Allocate 8, Free 4]"
  have s: "session 208 zero_memory ?cs = Some (pool_after 208 ?cs, {68})"
    by (simp add: eval_simps cong: let_weak_cong)
  have a: "arena (pool_after 208 ?cs) [64, - 16, 128]" by (simp add: eval_simps cong: let_weak_cong)
  have s': "session 208 zero_memory (?cs @ [Free 68])
     = Some (pool_after 208 [Allocate 56, Allocate 8, Free 4, Free 68], {})"
    by (simp add: eval_simps cong: let_weak_cong)
  from no_adjacent_free_blocks[OF _ _ s] obtain ts xs t ys s1 where
    r: "arena (pool_after 208 ?cs) ts" "no_adjacent_free ts"
      "arena (pool_after 208 ?cs) (xs @ t # ys)" "(68::int) = total_size xs + sizeof_int"
      "session 208 zero_memory (?cs @ [Free 68]) = Some (s1, {68} - {68})"
      "arena s1 (coalesce xs t ys)"
    by auto
  have "ts = [64, - 16, 128]" by (rule arena_unique[OF r(1) a])
  moreover have "xs @ t # ys = [64, - 16, 128]" by (rule arena_unique[OF r(3) a])
  then have "xs = [64] \<and> t = - 16 \<and> ys = [128]"
    using r(4) by (auto simp: append_eq_Cons_conv Cons_eq_append_conv sizeof_int_def)
  moreover have "s1 = pool_after 208 [Allocate 56, Allocate 8, Free 4, Free 68]"
    using r(5) s' by simp
  moreover have "coalesce [64] (- 16) [128] = [208]"
    by (simp add: coalesce_def free_left_def free_right_def)
  ultimately show ?thesis using s a s' r(2,6) by simp
qed

section \<open>Conservation\<close>

lemma sum_abs_starts:
  "tiles m a e ts \<Longrightarrow> sum_list (map (\<lambda>h. \<bar>load_int m h\<bar>) (starts a ts)) = total_size ts"
  by (induction ts arbitrary: a) auto

text \<open>
  Claim C4. After \<^verbatim>\<open>init_myalloc\<close> with capacity \<open>c\<close> and any session of calls that
  respect the obligations of the client, the traversal from the start of the pool
  returns, the blocks it visits tile the pool from 0 to \<open>c\<close> (each block starts where
  the one before it ends, the last one ends at \<open>c\<close>), and the magnitudes of their
  headers add up to \<open>c\<close>.
\<close>

theorem conservation:
  assumes "8 \<le> c" and "c < 2147483648" and "session c m0 calls = Some (s, live)"
  shows "MEMORY_SIZE s = c \<and> end_ptr s = c \<and>
         (\<exists>hs. block_headers s = Some hs \<and>
               tiles (mem s) 0 c (map (load_int (mem s)) hs) \<and>
               hs = starts 0 (map (load_int (mem s)) hs) \<and>
               sum_list (map (\<lambda>h. \<bar>load_int (mem s) h\<bar>) hs) = c)"
proof -
  from session_inv[OF assms] obtain ts where
    i: "arena s ts" "MEMORY_SIZE s = c" by blast
  then have t: "tiles (mem s) 0 c ts" and e: "end_ptr s = c" by (auto simp: arena_def)
  have h: "block_headers s = Some (starts 0 ts)" by (rule block_headers_arena[OF i(1)])
  have m: "map (load_int (mem s)) (starts 0 ts) = ts" by (rule map_load_starts[OF t])
  have "sum_list (map (\<lambda>h. \<bar>load_int (mem s) h\<bar>) (starts 0 ts)) = total_size ts"
    by (rule sum_abs_starts[OF t])
  moreover have "total_size ts = c" using tiles_end[OF t] by simp
  ultimately show ?thesis using i(2) e h m t by simp
qed

theorem conservation_witness:
  "(8::int) \<le> 128 \<and> (128::int) < 2147483648 \<and>
   session 128 zero_memory [Allocate 20, Allocate 30] =
     Some (pool_after 128 [Allocate 20, Allocate 30], {4, 32}) \<and>
   block_headers (pool_after 128 [Allocate 20, Allocate 30]) = Some [0, 28, 66] \<and>
   map (load_int (mem (pool_after 128 [Allocate 20, Allocate 30]))) [0, 28, 66] = [- 28, - 38, 62] \<and>
   sum_list (map (\<lambda>h. \<bar>load_int (mem (pool_after 128 [Allocate 20, Allocate 30])) h\<bar>) [0, 28, 66]) = 128"
proof -
  let ?cs = "[Allocate 20, Allocate 30]"
  have s: "session 128 zero_memory ?cs = Some (pool_after 128 ?cs, {4, 32})"
    by (simp add: eval_simps insert_commute cong: let_weak_cong)
  have h: "block_headers (pool_after 128 ?cs) = Some [0, 28, 66]"
    by (simp add: eval_simps cong: let_weak_cong)
  have l: "map (load_int (mem (pool_after 128 ?cs))) [0, 28, 66] = [- 28, - 38, 62]"
    by (simp add: eval_simps cong: let_weak_cong)
  from conservation[OF _ _ s] h
  have "sum_list (map (\<lambda>h. \<bar>load_int (mem (pool_after 128 ?cs)) h\<bar>) [0, 28, 66]) = 128"
    by simp
  with s h l show ?thesis by simp
qed

section \<open>Header and footer agree\<close>

lemma starts_bounds:
  "tiles m a e ts \<Longrightarrow> h \<in> set (starts a ts) \<Longrightarrow> a \<le> h \<and> h + 8 \<le> e"
proof (induction ts arbitrary: a)
  case Nil
  then show ?case by simp
next
  case (Cons t ts)
  from Cons.prems(1) have t8: "8 \<le> \<bar>t\<bar>" and rest: "tiles m (a + \<bar>t\<bar>) e ts" by auto
  from rest have le: "a + \<bar>t\<bar> \<le> e" by (rule tiles_le)
  show ?case
  proof (cases "h = a")
    case True
    then show ?thesis using t8 le by simp
  next
    case False
    with Cons.prems(2) have "h \<in> set (starts (a + \<bar>t\<bar>) ts)" by simp
    from Cons.IH[OF rest this] t8 show ?thesis by simp
  qed
qed

lemma sign_live:
  "tiles m a e ts \<Longrightarrow> h \<in> set (starts a ts) \<Longrightarrow>
   (load_int m h < 0 \<longleftrightarrow> h + 4 \<in> allocated_ptrs a ts)"
proof (induction ts arbitrary: a)
  case Nil
  then show ?case by simp
next
  case (Cons t ts)
  from Cons.prems(1) have t8: "8 \<le> \<bar>t\<bar>" and l: "load_int m a = t"
    and rest: "tiles m (a + \<bar>t\<bar>) e ts" by auto
  show ?case
  proof (cases "h = a")
    case True
    have "a + 4 \<notin> allocated_ptrs (a + \<bar>t\<bar>) ts"
      using ap_bounds[OF rest, of "a + 4"] t8 by auto
    then show ?thesis using True l by auto
  next
    case False
    with Cons.prems(2) have in_rest: "h \<in> set (starts (a + \<bar>t\<bar>) ts)" by simp
    from Cons.IH[OF rest in_rest] False show ?thesis by auto
  qed
qed

text \<open>
  Claim C9. After any session of calls that respect the obligations of the client, every
  block that the traversal visits has the same value in its header and in its footer.
  The magnitude of that value is the size of the block: the footer lies one word before
  the header plus the magnitude, and the next block starts at the header plus the
  magnitude. The value is negative exactly when the block is allocated, that is, when
  its payload pointer is live; otherwise it is positive.
\<close>

theorem header_footer_agree:
  assumes "8 \<le> c" and "c < 2147483648" and "session c m0 calls = Some (s, live)"
  shows "\<exists>hs. block_headers s = Some hs \<and>
           hs = starts 0 (map (load_int (mem s)) hs) \<and>
           tiles (mem s) 0 c (map (load_int (mem s)) hs) \<and>
           (\<forall>h \<in> set hs.
               load_int (mem s) (get_footer (mem s) h) = load_int (mem s) h \<and>
               get_footer (mem s) h = h + \<bar>load_int (mem s) h\<bar> - sizeof_int \<and>
               load_int (mem s) h \<noteq> 0 \<and>
               (load_int (mem s) h < 0 \<longleftrightarrow> h + sizeof_int \<in> live))"
proof -
  from session_inv[OF assms] obtain ts where
    i: "arena s ts" "MEMORY_SIZE s = c" "live = allocated_ptrs 0 ts" by blast
  then have t: "tiles (mem s) 0 c ts" by (auto simp: arena_def)
  have h: "block_headers s = Some (starts 0 ts)" by (rule block_headers_arena[OF i(1)])
  have m: "map (load_int (mem s)) (starts 0 ts) = ts" by (rule map_load_starts[OF t])
  have nz: "load_int (mem s) h \<noteq> 0" if "h \<in> set (starts 0 ts)" for h
  proof -
    from that m have "load_int (mem s) h \<in> set ts" by (metis image_eqI set_map)
    then obtain xs ys where "ts = xs @ load_int (mem s) h # ys" by (auto simp: in_set_conv_decomp)
    with t have "8 \<le> \<bar>load_int (mem s) h\<bar>" by (simp add: tiles_append)
    then show ?thesis by auto
  qed
  have all: "\<forall>h \<in> set (starts 0 ts).
               load_int (mem s) (get_footer (mem s) h) = load_int (mem s) h \<and>
               get_footer (mem s) h = h + \<bar>load_int (mem s) h\<bar> - sizeof_int \<and>
               load_int (mem s) h \<noteq> 0 \<and>
               (load_int (mem s) h < 0 \<longleftrightarrow> h + sizeof_int \<in> live)"
    using footer_starts[OF t] sign_live[OF t] nz i(3)
    by (simp add: sizeof_int_def get_footer_def)
  show ?thesis
  proof (intro exI[of _ "starts 0 ts"] conjI)
    show "block_headers s = Some (starts 0 ts)" by (rule h)
    show "starts 0 ts = starts 0 (map (load_int (mem s)) (starts 0 ts))" by (simp only: m)
    show "tiles (mem s) 0 c (map (load_int (mem s)) (starts 0 ts))" by (simp only: m t)
    show "\<forall>h \<in> set (starts 0 ts).
               load_int (mem s) (get_footer (mem s) h) = load_int (mem s) h \<and>
               get_footer (mem s) h = h + \<bar>load_int (mem s) h\<bar> - sizeof_int \<and>
               load_int (mem s) h \<noteq> 0 \<and>
               (load_int (mem s) h < 0 \<longleftrightarrow> h + sizeof_int \<in> live)"
      by (rule all)
  qed
qed

theorem header_footer_agree_witness:
  "(8::int) \<le> 128 \<and> (128::int) < 2147483648 \<and>
   session 128 zero_memory [Allocate 20] = Some (pool_after 128 [Allocate 20], {4}) \<and>
   block_headers (pool_after 128 [Allocate 20]) = Some [0, 28] \<and>
   load_int (mem (pool_after 128 [Allocate 20])) 0 = - 28 \<and>
   load_int (mem (pool_after 128 [Allocate 20])) (get_footer (mem (pool_after 128 [Allocate 20])) 0) = - 28 \<and>
   load_int (mem (pool_after 128 [Allocate 20])) 28 = 100 \<and>
   load_int (mem (pool_after 128 [Allocate 20])) (get_footer (mem (pool_after 128 [Allocate 20])) 28) = 100"
proof -
  let ?s = "pool_after 128 [Allocate 20]"
  have s: "session 128 zero_memory [Allocate 20] = Some (?s, {4})"
    by (simp add: eval_simps cong: let_weak_cong)
  have h: "block_headers ?s = Some [0, 28]"
    by (simp add: eval_simps cong: let_weak_cong)
  have l: "load_int (mem ?s) 0 = - 28" "load_int (mem ?s) 28 = 100"
    by (simp_all add: eval_simps cong: let_weak_cong)
  from header_footer_agree[OF _ _ s] h
  have "load_int (mem ?s) (get_footer (mem ?s) 0) = load_int (mem ?s) 0"
    "load_int (mem ?s) (get_footer (mem ?s) 28) = load_int (mem ?s) 28"
    by auto
  with s h l show ?thesis by simp
qed

section \<open>The smallest block\<close>

text \<open>
  A block need not have a payload word. \<^verbatim>\<open>myalloc\<close> splits when the block has
  \<open>4 * sizeof(int)\<close> bytes more than the request, ``enough extra space for footers and
  headers'' as its comment says: two tags for the allocated block and two for the
  remainder. On a pool of 40 bytes \<^verbatim>\<open>myalloc(24)\<close> leaves a free remainder of 8
  bytes, less than three words.
\<close>

lemma tags_at_least_8:
  "tiles m a e ts \<Longrightarrow> h \<in> set (starts a ts) \<Longrightarrow> 8 \<le> \<bar>load_int m h\<bar>"
  by (induction ts arbitrary: a) auto

theorem minimum_block_size_counterexample:
  "session 40 zero_memory [Allocate 24] = Some (pool_after 40 [Allocate 24], {4}) \<and>
   block_headers (fresh_pool 40) = Some [0] \<and>
   block_headers (pool_after 40 [Allocate 24]) = Some [0, 32] \<and>
   load_int (mem (pool_after 40 [Allocate 24])) 32 = 8 \<and>
   \<not> 3 * sizeof_int \<le> \<bar>load_int (mem (pool_after 40 [Allocate 24])) 32\<bar>"
  by (simp add: eval_simps cong: let_weak_cong)

text \<open>
  Claim C7, amended. After any session of calls that respect the obligations of the
  client, every block has a size of at least \<open>2 * sizeof(int)\<close>, the room of its two
  tags. In particular the remainder that a split leaves has the size of the original
  block minus \<open>size + 2 * sizeof(int)\<close>, and that is at least \<open>2 * sizeof(int)\<close>.
\<close>

theorem minimum_block_size:
  assumes "8 \<le> c" and "c < 2147483648" and "session c m0 calls = Some (s, live)"
  shows "(\<exists>hs. block_headers s = Some hs \<and>
               (\<forall>h \<in> set hs. 2 * sizeof_int \<le> \<bar>load_int (mem s) h\<bar>)) \<and>
         (\<forall>sz p s'. 0 < sz \<and> myalloc s sz = Some (Some p, s') \<and>
               sz + 4 * sizeof_int \<le> load_int (mem s) (p - sizeof_int) \<longrightarrow>
               load_int (mem s') (p + sz + sizeof_int)
                 = load_int (mem s) (p - sizeof_int) - (sz + 2 * sizeof_int) \<and>
               2 * sizeof_int \<le> load_int (mem s') (p + sz + sizeof_int))"
proof -
  from session_inv[OF assms] obtain ts where
    i: "arena s ts" "MEMORY_SIZE s = c" by blast
  then have t: "tiles (mem s) 0 c ts" by (auto simp: arena_def)
  have h: "block_headers s = Some (starts 0 ts)" by (rule block_headers_arena[OF i(1)])
  have 1: "\<exists>hs. block_headers s = Some hs \<and>
               (\<forall>h \<in> set hs. 2 * sizeof_int \<le> \<bar>load_int (mem s) h\<bar>)"
    using h tags_at_least_8[OF t] by (simp add: sizeof_int_def)
  have 2: "load_int (mem s') (p + sz + sizeof_int)
                 = load_int (mem s) (p - sizeof_int) - (sz + 2 * sizeof_int) \<and>
           2 * sizeof_int \<le> load_int (mem s') (p + sz + sizeof_int)"
    if sz: "0 < sz" and ok: "myalloc s sz = Some (Some p, s')"
      and sp: "sz + 4 * sizeof_int \<le> load_int (mem s) (p - sizeof_int)" for sz p s'
  proof -
    have "sz \<le> INT_MAX"
      using sp load_int_range[of "mem s" "p - sizeof_int"] by (simp add: sizeof_int_def INT_MAX_def)
    from myalloc_Some_outcome[OF i(1) sz this ok] obtain xs t ys where
      o: "ts = xs @ t # ys" "p = total_size xs + 4"
        "arena s' (xs @ (if sz + 16 \<le> t then [- (sz + 8), t - (sz + 8)] else [- t]) @ ys)"
        "end_ptr s' = end_ptr s"
      by blast
    from t o(1) have t0: "tiles (mem s) 0 c (xs @ t # ys)" by simp
    have l0: "load_int (mem s) (total_size xs) = t" using tiles_at(1)[OF t0] by simp
    with sp o(2) have big: "sz + 16 \<le> t" by (simp add: sizeof_int_def)
    with o(3) have "tiles (mem s') 0 (end_ptr s') ((xs @ [- (sz + 8)]) @ (t - (sz + 8)) # ys)"
      by (auto simp: arena_def)
    from tiles_at(1)[OF this] sz o(2)
    have "load_int (mem s') (p + sz + sizeof_int) = t - (sz + 8)"
      by (simp add: sizeof_int_def algebra_simps)
    then show ?thesis using big l0 o(2) by (simp add: sizeof_int_def)
  qed
  from 1 2 show ?thesis by blast
qed

theorem minimum_block_size_witness:
  "(8::int) \<le> 40 \<and> (40::int) < 2147483648 \<and>
   session 40 zero_memory [] = Some (fresh_pool 40, {}) \<and>
   (0::int) < 24 \<and> myalloc (fresh_pool 40) 24 = Some (Some 4, pool_after 40 [Allocate 24]) \<and>
   24 + 4 * sizeof_int \<le> load_int (mem (fresh_pool 40)) (4 - sizeof_int) \<and>
   2 * sizeof_int \<le> load_int (mem (pool_after 40 [Allocate 24])) (4 + 24 + sizeof_int) \<and>
   load_int (mem (pool_after 40 [Allocate 24])) (4 + 24 + sizeof_int) = 8"
proof -
  have s: "session 40 zero_memory [] = Some (fresh_pool 40, {})"
    by (simp add: eval_simps cong: let_weak_cong)
  have m: "myalloc (fresh_pool 40) 24 = Some (Some 4, pool_after 40 [Allocate 24])"
    by (simp add: eval_simps cong: let_weak_cong)
  have l: "24 + 4 * sizeof_int \<le> load_int (mem (fresh_pool 40)) (4 - sizeof_int)"
    "load_int (mem (fresh_pool 40)) (4 - sizeof_int) = 40"
    by (simp_all add: eval_simps cong: let_weak_cong)
  from minimum_block_size[OF _ _ s, THEN conjunct2, rule_format,
      of 24 4 "pool_after 40 [Allocate 24]"] m l(1)
  have "load_int (mem (pool_after 40 [Allocate 24])) (4 + 24 + sizeof_int)
          = load_int (mem (fresh_pool 40)) (4 - sizeof_int) - (24 + 2 * sizeof_int) \<and>
        2 * sizeof_int \<le> load_int (mem (pool_after 40 [Allocate 24])) (4 + 24 + sizeof_int)"
    by simp
  with s m l show ?thesis by (simp add: sizeof_int_def)
qed

section \<open>Back to the empty pool\<close>

lemma no_allocated_all_free:
  "tiles m a e ts \<Longrightarrow> allocated_ptrs a ts = {} \<Longrightarrow> \<forall>t \<in> set ts. 0 < t"
  by (induction ts arbitrary: a) (auto split: if_splits)

lemma all_free_single:
  "no_adjacent_free ts \<Longrightarrow> \<forall>t \<in> set ts. 0 < t \<Longrightarrow> ts = [] \<or> (\<exists>t. ts = [t])"
  by (cases ts rule: no_adjacent_free.cases) auto

lemma empty_pool_layout:
  assumes "arena s ts" "no_adjacent_free ts" "allocated_ptrs 0 ts = {}"
  shows "ts = [MEMORY_SIZE s]"
proof -
  from assms(1) have t: "tiles (mem s) 0 (MEMORY_SIZE s) ts" and ne: "ts \<noteq> []"
    by (auto simp: arena_def)
  from no_allocated_all_free[OF t assms(3)] have pos: "\<forall>t \<in> set ts. 0 < t" .
  from all_free_single[OF assms(2) pos] ne obtain u where u: "ts = [u]" by auto
  with pos tiles_end[OF t] show ?thesis by simp
qed

text \<open>
  Claim C5. When a session of calls that respect the obligations of the client ends with
  no live pointer (every pointer that \<^verbatim>\<open>myalloc\<close> returned has been freed), the pool is
  one free block of size \<open>c\<close>: header and footer hold \<open>c\<close>, and the traversal, the two
  tags and the bounds of the pool are those of the state right after \<^verbatim>\<open>init_myalloc\<close>.
  (The bytes between the two tags are not restored: a free block's payload keeps what
  earlier tags and clients wrote there.) With a capacity of 128 bytes, \<^verbatim>\<open>myalloc(20)\<close>
  returns the pointer 4 and leaves an allocated block of 28 bytes and a free block of
  100 bytes, and \<^verbatim>\<open>myfree\<close> of that pointer leaves one free block of 128 bytes.
\<close>

theorem round_trip:
  "(8 \<le> c \<and> c < 2147483648 \<and> session c m0 calls = Some (s, {}) \<longrightarrow>
      arena s [c] \<and> block_headers s = Some [0] \<and>
      load_int (mem s) 0 = c \<and> load_int (mem s) (get_footer (mem s) 0) = c \<and>
      (\<exists>s0. init_myalloc c (Some m0) = Inr s0 \<and> arena s0 [c] \<and>
            block_headers s0 = block_headers s \<and>
            load_int (mem s0) 0 = load_int (mem s) 0 \<and>
            get_footer (mem s0) 0 = get_footer (mem s) 0 \<and>
            load_int (mem s0) (get_footer (mem s0) 0) = load_int (mem s) (get_footer (mem s) 0) \<and>
            MEMORY_SIZE s0 = MEMORY_SIZE s \<and> end_ptr s0 = end_ptr s)) \<and>
   (\<exists>s1 s2. session 128 m1 [Allocate 20] = Some (s1, {4}) \<and> arena s1 [- 28, 100] \<and>
            session 128 m1 [Allocate 20, Free 4] = Some (s2, {}) \<and> arena s2 [128])"
proof (rule conjI, rule impI)
  assume a: "8 \<le> c \<and> c < 2147483648 \<and> session c m0 calls = Some (s, {})"
  then have c: "8 \<le> c" "c < 2147483648" and se: "session c m0 calls = Some (s, {})" by auto
  from session_inv[OF c se] obtain ts where
    i: "arena s ts" "MEMORY_SIZE s = c" "no_adjacent_free ts" "{} = allocated_ptrs 0 ts" by blast
  from empty_pool_layout[OF i(1,3) i(4)[symmetric]] i(2) have ts: "ts = [c]" by simp
  with i(1) have ar: "arena s [c]" by simp
  then have "tiles (mem s) 0 (end_ptr s) [c]" "end_ptr s = MEMORY_SIZE s"
    unfolding arena_def by blast+
  then have t: "tiles (mem s) 0 c [c]" "end_ptr s = c" by (simp_all only: i(2))
  from se obtain s0 where s0: "init_myalloc c (Some m0) = Inr s0"
    by (auto simp: session_def split: sum.splits)
  have ar0: "arena s0 [c]" by (rule init_arena[OF c s0])
  have m0: "MEMORY_SIZE s0 = c" using s0 by (auto simp: init_myalloc_def Let_def)
  from ar0 have "tiles (mem s0) 0 (end_ptr s0) [c]" "end_ptr s0 = MEMORY_SIZE s0"
    unfolding arena_def by blast+
  then have t0: "tiles (mem s0) 0 c [c]" "end_ptr s0 = c" "MEMORY_SIZE s0 = c"
    by (simp_all only: m0)
  have h: "block_headers s = Some [0]" "block_headers s0 = Some [0]"
    using block_headers_arena[OF ar] block_headers_arena[OF ar0] by simp_all
  have l: "load_int (mem s) 0 = c" "load_int (mem s) (get_footer (mem s) 0) = c"
    "get_footer (mem s) 0 = c - 4"
    using t(1) c by (simp_all add: get_footer_def sizeof_int_def)
  have l0: "load_int (mem s0) 0 = c" "load_int (mem s0) (get_footer (mem s0) 0) = c"
    "get_footer (mem s0) 0 = c - 4"
    using t0(1) c by (simp_all add: get_footer_def sizeof_int_def)
  show "arena s [c] \<and> block_headers s = Some [0] \<and>
      load_int (mem s) 0 = c \<and> load_int (mem s) (get_footer (mem s) 0) = c \<and>
      (\<exists>s0. init_myalloc c (Some m0) = Inr s0 \<and> arena s0 [c] \<and>
            block_headers s0 = block_headers s \<and>
            load_int (mem s0) 0 = load_int (mem s) 0 \<and>
            get_footer (mem s0) 0 = get_footer (mem s) 0 \<and>
            load_int (mem s0) (get_footer (mem s0) 0) = load_int (mem s) (get_footer (mem s) 0) \<and>
            MEMORY_SIZE s0 = MEMORY_SIZE s \<and> end_ptr s0 = end_ptr s)"
    using ar h l l0 s0 ar0 t(2) t0(2,3) i(2) by auto
next
  show "\<exists>s1 s2. session 128 m1 [Allocate 20] = Some (s1, {4}) \<and> arena s1 [- 28, 100] \<and>
            session 128 m1 [Allocate 20, Free 4] = Some (s2, {}) \<and> arena s2 [128]"
    by (simp add: eval_simps cong: let_weak_cong)
qed

theorem round_trip_witness:
  "(8::int) \<le> 128 \<and> (128::int) < 2147483648 \<and>
   session 128 zero_memory [Allocate 20, Free 4] = Some (pool_after 128 [Allocate 20, Free 4], {}) \<and>
   arena (pool_after 128 [Allocate 20, Free 4]) [128] \<and>
   load_int (mem (pool_after 128 [Allocate 20, Free 4])) 0 = 128 \<and>
   load_int (mem (pool_after 128 [Allocate 20, Free 4])) 124 = 128 \<and>
   get_footer (mem (pool_after 128 [Allocate 20, Free 4])) 0 = 124"
proof -
  let ?s = "pool_after 128 [Allocate 20, Free 4]"
  have s: "session 128 zero_memory [Allocate 20, Free 4] = Some (?s, {})"
    by (simp add: eval_simps cong: let_weak_cong)
  from round_trip[of 128 zero_memory "[Allocate 20, Free 4]" ?s, THEN conjunct1] s
  have r: "arena ?s [128]" "load_int (mem ?s) 0 = 128" "load_int (mem ?s) (get_footer (mem ?s) 0) = 128"
    by simp_all
  then have "get_footer (mem ?s) 0 = 124" by (simp add: get_footer_def sizeof_int_def)
  with r s show ?thesis by simp
qed

section \<open>What the calls leave alone\<close>

lemma tag_bytes_append:
  "tag_bytes a (xs @ ys) = tag_bytes a xs \<union> tag_bytes (a + total_size xs) ys"
  by (induction xs arbitrary: a) (auto simp: add.assoc)

lemma payload_bytes_append:
  "payload_bytes a (xs @ ys) = payload_bytes a xs \<union> payload_bytes (a + total_size xs) ys"
  by (induction xs arbitrary: a) (auto simp: add.assoc)

lemma payload_bounds:
  "tiles m a e ts \<Longrightarrow> x \<in> payload_bytes a ts \<Longrightarrow> a \<le> x \<and> x < e"
proof (induction ts arbitrary: a)
  case Nil
  then show ?case by simp
next
  case (Cons t ts)
  from Cons.prems(1) have t8: "8 \<le> \<bar>t\<bar>" and rest: "tiles m (a + \<bar>t\<bar>) e ts" by auto
  from rest have le: "a + \<bar>t\<bar> \<le> e" by (rule tiles_le)
  show ?case
  proof (cases "x \<in> payload_bytes (a + \<bar>t\<bar>) ts")
    case True
    from Cons.IH[OF rest True] t8 show ?thesis by simp
  next
    case False
    with Cons.prems(2) have "a + 4 \<le> x" "x < a + \<bar>t\<bar> - 4" by (auto split: if_splits)
    then show ?thesis using le by simp
  qed
qed

lemma free_footprint_tags:
  "free_footprint xs t ys \<subseteq> tag_bytes 0 (xs @ t # ys)"
proof -
  have l: "{total_size xs - last xs ..< total_size xs - last xs + 4} \<subseteq> tag_bytes 0 xs"
    if "free_left xs"
  proof -
    from that obtain xs0 a where xs: "xs = xs0 @ [a]" "0 < a"
      by (cases xs rule: rev_cases) (auto simp: free_left_def)
    then show ?thesis by (auto simp: tag_bytes_append)
  qed
  have r: "{a + hd ys - 4 ..< a + hd ys} \<subseteq> tag_bytes a ys" if "free_right ys" for a
  proof -
    from that obtain b ys0 where "ys = b # ys0" "0 < b"
      by (cases ys) (auto simp: free_right_def)
    then show ?thesis by auto
  qed
  show ?thesis
    using l r[of "total_size xs + \<bar>t\<bar>"]
    by (auto simp: free_footprint_def Let_def tag_bytes_append split: if_splits)
qed

lemma tags_not_payload:
  "tiles m a e ts \<Longrightarrow> x \<in> tag_bytes a ts \<Longrightarrow> x \<notin> payload_bytes a ts"
proof (induction ts arbitrary: a)
  case Nil
  then show ?case by simp
next
  case (Cons t ts)
  from Cons.prems(1) have t8: "8 \<le> \<bar>t\<bar>" and rest: "tiles m (a + \<bar>t\<bar>) e ts" by auto
  have tb: "a + \<bar>t\<bar> \<le> y" if "y \<in> tag_bytes (a + \<bar>t\<bar>) ts" for y
    using that rest
  proof (induction ts arbitrary: a t)
    case Nil
    then show ?case by simp
  next
    case (Cons u us)
    from Cons.prems(2) have "8 \<le> \<bar>u\<bar>" "tiles m (a + \<bar>t\<bar> + \<bar>u\<bar>) e us" by auto
    with Cons.IH[of "a + \<bar>t\<bar>" u] Cons.prems(1) show ?case by auto
  qed
  show ?case
  proof (cases "x \<in> tag_bytes (a + \<bar>t\<bar>) ts")
    case True
    from Cons.IH[OF rest True] tb[OF True] show ?thesis by (auto split: if_splits)
  next
    case False
    with Cons.prems(2) have x: "x \<in> {a ..< a + 4} \<union> {a + \<bar>t\<bar> - 4 ..< a + \<bar>t\<bar>}" by simp
    then have "x < a + \<bar>t\<bar>" using t8 by auto
    then have "x \<notin> payload_bytes (a + \<bar>t\<bar>) ts"
      using payload_bounds[OF rest, of x] by auto
    then show ?thesis using x by (auto split: if_splits)
  qed
qed


lemma alloc_footprint_tags:
  assumes "0 < sz" "0 < t"
  shows "alloc_footprint (total_size xs) sz t \<subseteq>
           tag_bytes 0 (xs @ (if sz + 16 \<le> t then [- (sz + 8), t - (sz + 8)] else [- t]) @ ys)"
  using assms by (auto simp: alloc_footprint_def tag_bytes_append)

lemma alloc_payload_mono:
  assumes "0 < t" "total_size zs = t"
  shows "payload_bytes 0 (xs @ t # ys) \<subseteq> payload_bytes 0 (xs @ zs @ ys)"
  using assms by (auto simp: payload_bytes_append)

text \<open>
  Claim C10. A successful \<^verbatim>\<open>myalloc\<close> (of a size that is an \<^verbatim>\<open>int\<close>) changes no byte of the pool outside the header
  and the footer of the block it allocates and, when it splits, the header and the
  footer of the remainder: the bytes of \<open>alloc_footprint\<close>, all of them tag bytes of the
  new layout. No payload byte of an allocated block, the new one included, changes.
  A \<^verbatim>\<open>myfree\<close> of the payload pointer of an allocated block returns and changes no
  byte outside the tags of the freed block, the header of a free left neighbour and
  the footer of a free right neighbour: the bytes of \<open>free_footprint\<close>, all of them tag
  bytes of the layout before the call. No payload byte changes. Neither call changes
  \<^verbatim>\<open>MEMORY_SIZE\<close>, \<^verbatim>\<open>end\<close> or the error stream.
\<close>

theorem frame:
  "(arena s ts \<and> 0 < sz \<and> sz \<le> INT_MAX \<and> myalloc s sz = Some (Some p, s') \<longrightarrow>
      MEMORY_SIZE s' = MEMORY_SIZE s \<and> end_ptr s' = end_ptr s \<and> stderr s' = stderr s \<and>
      (\<forall>x. mem s' x \<noteq> mem s x \<longrightarrow>
           x \<in> alloc_footprint (p - sizeof_int) sz (load_int (mem s) (p - sizeof_int))) \<and>
      (\<exists>ts'. arena s' ts' \<and>
           alloc_footprint (p - sizeof_int) sz (load_int (mem s) (p - sizeof_int)) \<subseteq> tag_bytes 0 ts' \<and>
           payload_bytes 0 ts \<subseteq> payload_bytes 0 ts' \<and>
           (\<forall>x \<in> payload_bytes 0 ts'. mem s' x = mem s x))) \<and>
   (arena s ts \<and> q \<in> allocated_ptrs 0 ts \<longrightarrow>
      (\<exists>s''. myfree s q = Some s'' \<and>
         MEMORY_SIZE s'' = MEMORY_SIZE s \<and> end_ptr s'' = end_ptr s \<and> stderr s'' = stderr s \<and>
         (\<exists>xs t ys. ts = xs @ t # ys \<and> t < 0 \<and> q = total_size xs + sizeof_int \<and>
              (\<forall>x. mem s'' x \<noteq> mem s x \<longrightarrow> x \<in> free_footprint xs t ys) \<and>
              free_footprint xs t ys \<subseteq> tag_bytes 0 ts) \<and>
         (\<forall>x \<in> payload_bytes 0 ts. mem s'' x = mem s x)))"
proof (rule conjI; rule impI)
  assume a: "arena s ts \<and> 0 < sz \<and> sz \<le> INT_MAX \<and> myalloc s sz = Some (Some p, s')"
  then have ar: "arena s ts" and sz: "0 < sz" and szm: "sz \<le> INT_MAX"
    and ok: "myalloc s sz = Some (Some p, s')" by auto
  from myalloc_Some_outcome[OF ar sz szm ok] obtain xs t ys where
    o: "ts = xs @ t # ys" "candidate sz t" "p = total_size xs + 4"
      "MEMORY_SIZE s' = MEMORY_SIZE s" "end_ptr s' = end_ptr s" "stderr s' = stderr s"
      "arena s' (xs @ (if sz + 16 \<le> t then [- (sz + 8), t - (sz + 8)] else [- t]) @ ys)"
      "\<forall>x. mem s' x \<noteq> mem s x \<longrightarrow> x \<in> alloc_footprint (total_size xs) sz t"
    by blast
  let ?ts' = "xs @ (if sz + 16 \<le> t then [- (sz + 8), t - (sz + 8)] else [- t]) @ ys"
  from o(2) have el: "0 < t" by (rule candidate_pos)
  from ar o(1) have t: "tiles (mem s) 0 (end_ptr s) (xs @ t # ys)" by (auto simp: arena_def)
  have l0: "p - sizeof_int = total_size xs" "load_int (mem s) (total_size xs) = t"
    using tiles_at(1)[OF t] o(3) by (simp_all add: sizeof_int_def)
  from o(7) have t': "tiles (mem s') 0 (end_ptr s') ?ts'" by (auto simp: arena_def)
  have sub: "alloc_footprint (total_size xs) sz t \<subseteq> tag_bytes 0 ?ts'"
    by (rule alloc_footprint_tags[OF sz el])
  have mono: "payload_bytes 0 ts \<subseteq> payload_bytes 0 ?ts'"
    unfolding o(1) using el sz by (intro alloc_payload_mono) auto
  have keep: "mem s' x = mem s x" if "x \<in> payload_bytes 0 ?ts'" for x
  proof (rule ccontr)
    assume "mem s' x \<noteq> mem s x"
    with o(8) sub have "x \<in> tag_bytes 0 ?ts'" by blast
    from tags_not_payload[OF t' this] that show False by simp
  qed
  show "MEMORY_SIZE s' = MEMORY_SIZE s \<and> end_ptr s' = end_ptr s \<and> stderr s' = stderr s \<and>
      (\<forall>x. mem s' x \<noteq> mem s x \<longrightarrow>
           x \<in> alloc_footprint (p - sizeof_int) sz (load_int (mem s) (p - sizeof_int))) \<and>
      (\<exists>ts'. arena s' ts' \<and>
           alloc_footprint (p - sizeof_int) sz (load_int (mem s) (p - sizeof_int)) \<subseteq> tag_bytes 0 ts' \<and>
           payload_bytes 0 ts \<subseteq> payload_bytes 0 ts' \<and>
           (\<forall>x \<in> payload_bytes 0 ts'. mem s' x = mem s x))"
    unfolding l0
  proof (intro conjI)
    show "MEMORY_SIZE s' = MEMORY_SIZE s" "end_ptr s' = end_ptr s" "stderr s' = stderr s"
      using o(4,5,6) by simp_all
    show "\<forall>x. mem s' x \<noteq> mem s x \<longrightarrow> x \<in> alloc_footprint (total_size xs) sz t"
      by (rule o(8))
    have "arena s' ?ts' \<and> alloc_footprint (total_size xs) sz t \<subseteq> tag_bytes 0 ?ts' \<and>
          payload_bytes 0 ts \<subseteq> payload_bytes 0 ?ts' \<and>
          (\<forall>x \<in> payload_bytes 0 ?ts'. mem s' x = mem s x)"
      using o(7) sub mono keep by (intro conjI ballI)
    then show "\<exists>ts'. arena s' ts' \<and> alloc_footprint (total_size xs) sz t \<subseteq> tag_bytes 0 ts' \<and>
          payload_bytes 0 ts \<subseteq> payload_bytes 0 ts' \<and>
          (\<forall>x \<in> payload_bytes 0 ts'. mem s' x = mem s x)"
      by (rule exI)
  qed
next
  assume a: "arena s ts \<and> q \<in> allocated_ptrs 0 ts"
  then have ar: "arena s ts" and q: "q \<in> allocated_ptrs 0 ts" by auto
  from myfree_outcome[OF ar q] obtain xs t ys m' where
    o: "ts = xs @ t # ys" "t < 0" "q = total_size xs + 4" "myfree s q = Some (s\<lparr>mem := m'\<rparr>)"
      "\<forall>x. m' x \<noteq> mem s x \<longrightarrow> x \<in> free_footprint xs t ys"
    by blast
  let ?s = "s\<lparr>mem := m'\<rparr>"
  from ar have t: "tiles (mem s) 0 (end_ptr s) ts" by (auto simp: arena_def)
  have sub: "free_footprint xs t ys \<subseteq> tag_bytes 0 ts"
    unfolding o(1) by (rule free_footprint_tags)
  have keep: "mem ?s x = mem s x" if "x \<in> payload_bytes 0 ts" for x
  proof (rule ccontr)
    assume "mem ?s x \<noteq> mem s x"
    with o(5) sub have "x \<in> tag_bytes 0 ts" by auto
    from tags_not_payload[OF t this] that show False by simp
  qed
  have "ts = xs @ t # ys \<and> t < 0 \<and> q = total_size xs + sizeof_int \<and>
           (\<forall>x. mem ?s x \<noteq> mem s x \<longrightarrow> x \<in> free_footprint xs t ys) \<and>
           free_footprint xs t ys \<subseteq> tag_bytes 0 ts"
    using o(1,2,3,5) sub by (simp add: sizeof_int_def)
  then have ex: "\<exists>xs t ys. ts = xs @ t # ys \<and> t < 0 \<and> q = total_size xs + sizeof_int \<and>
           (\<forall>x. mem ?s x \<noteq> mem s x \<longrightarrow> x \<in> free_footprint xs t ys) \<and>
           free_footprint xs t ys \<subseteq> tag_bytes 0 ts"
    by (intro exI)
  have "myfree s q = Some ?s \<and>
         MEMORY_SIZE ?s = MEMORY_SIZE s \<and> end_ptr ?s = end_ptr s \<and> stderr ?s = stderr s \<and>
         (\<exists>xs t ys. ts = xs @ t # ys \<and> t < 0 \<and> q = total_size xs + sizeof_int \<and>
              (\<forall>x. mem ?s x \<noteq> mem s x \<longrightarrow> x \<in> free_footprint xs t ys) \<and>
              free_footprint xs t ys \<subseteq> tag_bytes 0 ts) \<and>
         (\<forall>x \<in> payload_bytes 0 ts. mem ?s x = mem s x)"
    using o(4) ex keep by (intro conjI ballI) simp_all
  then show "\<exists>s''. myfree s q = Some s'' \<and>
         MEMORY_SIZE s'' = MEMORY_SIZE s \<and> end_ptr s'' = end_ptr s \<and> stderr s'' = stderr s \<and>
         (\<exists>xs t ys. ts = xs @ t # ys \<and> t < 0 \<and> q = total_size xs + sizeof_int \<and>
              (\<forall>x. mem s'' x \<noteq> mem s x \<longrightarrow> x \<in> free_footprint xs t ys) \<and>
              free_footprint xs t ys \<subseteq> tag_bytes 0 ts) \<and>
         (\<forall>x \<in> payload_bytes 0 ts. mem s'' x = mem s x)"
    by (rule exI)
qed

theorem frame_witness:
  "arena (fresh_pool 128) [128] \<and> (0::int) < 20 \<and> (20::int) \<le> INT_MAX \<and>
   myalloc (fresh_pool 128) 20 = Some (Some 4, pool_after 128 [Allocate 20]) \<and>
   (10::int) \<notin> alloc_footprint 0 20 128 \<and>
   mem (pool_after 128 [Allocate 20]) 10 = mem (fresh_pool 128) 10 \<and>
   arena (pool_after 208 [Allocate 56, Allocate 8, Free 4]) [64, - 16, 128] \<and>
   (68::int) \<in> allocated_ptrs 0 [64, - 16, 128] \<and>
   myfree (pool_after 208 [Allocate 56, Allocate 8, Free 4]) 68
     = Some (pool_after 208 [Allocate 56, Allocate 8, Free 4, Free 68]) \<and>
   (70::int) \<in> payload_bytes 0 [64, - 16, 128] \<and>
   mem (pool_after 208 [Allocate 56, Allocate 8, Free 4, Free 68]) 70
     = mem (pool_after 208 [Allocate 56, Allocate 8, Free 4]) 70"
proof -
  let ?s3 = "pool_after 208 [Allocate 56, Allocate 8, Free 4]"
  let ?s4 = "pool_after 208 [Allocate 56, Allocate 8, Free 4, Free 68]"
  have a1: "arena (fresh_pool 128) [128]" by (simp add: eval_simps cong: let_weak_cong)
  have m1: "myalloc (fresh_pool 128) 20 = Some (Some 4, pool_after 128 [Allocate 20])"
    by (simp add: eval_simps cong: let_weak_cong)
  have l1: "load_int (mem (fresh_pool 128)) 0 = 128" "4 - sizeof_int = 0"
    by (simp_all add: eval_simps cong: let_weak_cong)
  have n1: "(10::int) \<notin> alloc_footprint 0 20 128" by (simp add: alloc_footprint_def)
  have b1: "(20::int) \<le> INT_MAX" by (simp add: INT_MAX_def)
  from frame[THEN conjunct1, of "fresh_pool 128" "[128]" 20 4 "pool_after 128 [Allocate 20]"] a1 b1 m1
  have "mem (pool_after 128 [Allocate 20]) 10 \<noteq> mem (fresh_pool 128) 10 \<longrightarrow>
           10 \<in> alloc_footprint (4 - sizeof_int) 20 (load_int (mem (fresh_pool 128)) (4 - sizeof_int))"
    by simp
  then have "mem (pool_after 128 [Allocate 20]) 10 \<noteq> mem (fresh_pool 128) 10 \<longrightarrow>
           (10::int) \<in> alloc_footprint 0 20 128"
    by (simp only: l1)
  with n1 have e1: "mem (pool_after 128 [Allocate 20]) 10 = mem (fresh_pool 128) 10"
    by auto
  have a3: "arena ?s3 [64, - 16, 128]" by (simp add: eval_simps cong: let_weak_cong)
  have q3: "(68::int) \<in> allocated_ptrs 0 [64, - 16, 128]" by simp
  have m3: "myfree ?s3 68 = Some ?s4" by (simp add: eval_simps cong: let_weak_cong)
  have p3: "(70::int) \<in> payload_bytes 0 [64, - 16, 128]" by simp
  from frame[THEN conjunct2, of ?s3 "[64, - 16, 128]" 68] a3 q3 m3
  have "\<forall>x \<in> payload_bytes 0 [64, - 16, 128]. mem ?s4 x = mem ?s3 x" by auto
  then have e3: "mem ?s4 70 = mem ?s3 70" using p3 by (rule bspec)
  from a1 b1 m1 n1 e1 a3 q3 m3 p3 e3 show ?thesis by (intro conjI) simp_all
qed

end
